theory Spec2Isabelle
  imports Main "HOL-Library.Word" "HOL-Library.Log_Nat"
begin

section \<open>Numbers of the source language\<close>

text \<open>
  Every number of the program is an IEEE double. The indices, sizes and row bounds it
  handles are natural numbers, or the value NaN that the unary plus in
  \<^verbatim>\<open>mainThread(+process.argv[2])\<close> gives for a missing or non-numeric argument. The type
  \<open>number\<close> holds these two kinds; negative, fractional and infinite sizes are outside the
  model. A sum or product of naturals is exact in a double while it stays below \<open>2^53\<close>;
  above that, \<open>fl\<close> rounds it to 53 significant bits, to nearest and ties to even, as the
  hardware does.
\<close>

datatype number = NaN | Fin nat

definition fl :: "nat \<Rightarrow> nat" where
  "fl x =
     (if x < 2 ^ 53 then x
      else let e = floorlog 2 x - 53; q = x div 2 ^ e; r = x mod 2 ^ e; h = 2 ^ (e - 1)
           in if r < h \<or> (r = h \<and> even q) then q * 2 ^ e else (q + 1) * 2 ^ e)"

text \<open>\<^verbatim>\<open>x >>> k\<close>: the operand is reduced to an unsigned 32-bit integer, then shifted.\<close>

definition ushr :: "nat \<Rightarrow> nat \<Rightarrow> nat" where
  "ushr x k = unat (drop_bit (k mod 32) (word_of_nat x :: 32 word))"

section \<open>The matrix entry\<close>

text \<open>
  \<^verbatim>\<open>function a(i, j) { return ((i + j) * (i + j + 1) >>> 1) + i + 1; }\<close>
  The sums are exact for indices below \<open>2^52\<close>; the product is rounded by \<open>fl\<close>.
\<close>

definition a :: "nat \<Rightarrow> nat \<Rightarrow> nat" where
  "a i j = ushr (fl ((i + j) * (i + j + 1))) 1 + i + 1"

text \<open>The specification's triangular number, \<open>k * (k + 1) / 2\<close>.\<close>

definition triangular :: "nat \<Rightarrow> nat" where
  "triangular k = k * (k + 1) div 2"

section \<open>Double arithmetic of the vector entries\<close>

text \<open>
  The vector entries are doubles, and the program adds, multiplies, divides and takes
  square roots of them. The operations are parameters of the model, so that every result
  holds for IEEE arithmetic as for any other: \<open>dbl\<close> turns an integer-valued number into
  a vector entry, \<open>nan\<close> is what reading a typed array out of range gives once used as a
  number, and \<open>toFixed\<close> is \<^verbatim>\<open>Number.prototype.toFixed\<close>.
\<close>

record ('f, 'o) arith =
  dbl :: "nat \<Rightarrow> 'f"
  nan :: "'f"
  fadd :: "'f \<Rightarrow> 'f \<Rightarrow> 'f"
  fmul :: "'f \<Rightarrow> 'f \<Rightarrow> 'f"
  fdiv :: "'f \<Rightarrow> 'f \<Rightarrow> 'f"
  fsqrt :: "'f \<Rightarrow> 'f"
  toFixed :: "'f \<Rightarrow> nat \<Rightarrow> 'o"

text \<open>
  The free arithmetic: every operation builds the term that names it, so a value records
  which operations the program performed, on what, and in which order.
\<close>

datatype fexp =
  FNum nat | FNaN | FAdd fexp fexp | FMul fexp fexp | FDiv fexp fexp | FSqrt fexp

datatype fout = ToFixed fexp nat

definition sym :: "(fexp, fout) arith" where
  "sym = \<lparr>dbl = FNum, nan = FNaN, fadd = FAdd, fmul = FMul, fdiv = FDiv, fsqrt = FSqrt,
          toFixed = ToFixed\<rparr>"

text \<open>\<^verbatim>\<open>x < y\<close> on numbers: false as soon as one side is NaN.\<close>

fun lt :: "number \<Rightarrow> number \<Rightarrow> bool" where
  "lt (Fin x) (Fin y) = (x < y)"
| "lt _ _ = False"

fun nadd :: "number \<Rightarrow> number \<Rightarrow> number" where
  "nadd (Fin x) (Fin y) = Fin (x + y)"
| "nadd _ _ = NaN"

fun nmul :: "number \<Rightarrow> number \<Rightarrow> number" where
  "nmul (Fin x) (Fin y) = Fin (x * y)"
| "nmul _ _ = NaN"

text \<open>Reading \<^verbatim>\<open>xs[j]\<close> from a \<^verbatim>\<open>Float64Array\<close>: out of range, the read is undefined.\<close>

definition rd :: "('f, 'o) arith \<Rightarrow> 'f list \<Rightarrow> nat \<Rightarrow> 'f" where
  "rd ar xs j = (if j < length xs then xs ! j else nan ar)"

section \<open>Messages and the shared vectors\<close>

datatype UVWField = U | V | W

datatype Message = Sab | Au UVWField UVWField | Atu UVWField UVWField | Exit

text \<open>
  The three vectors \<open>u\<close>, \<open>v\<close>, \<open>w\<close> are views of one shared buffer at disjoint offsets.
  \<^verbatim>\<open>data[message.vec1]\<close> looks a view up by its field name, so the store is a function
  of the field name. A write \<^verbatim>\<open>v[i] = t\<close> beyond the length of a typed array does nothing,
  as \<open>list_update\<close> does.
\<close>

type_synonym 'f UVW = "UVWField \<Rightarrow> 'f list"

record workerData =
  wn :: number
  wstart :: number
  wend :: number

section \<open>The partitioned multiplier\<close>

text \<open>
  \<^verbatim>\<open>for (let j = 0; j < n; j++) { t += u[j] / a(i, j); }\<close> with the accumulator \<open>t\<close>,
  from the current \<open>j\<close> on.
\<close>

function au_inner ::
  "('f, 'o) arith \<Rightarrow> number \<Rightarrow> nat \<Rightarrow> nat \<Rightarrow> 'f \<Rightarrow> 'f list \<Rightarrow> 'f" where
  "au_inner ar n i j t src =
     (if lt (Fin j) n
      then au_inner ar n i (j + 1) (fadd ar t (fdiv ar (rd ar src j) (dbl ar (a i j)))) src
      else t)"
  by pat_completeness auto
termination
  by (relation "measure (\<lambda>(ar, n, i, j, t, src). case n of NaN \<Rightarrow> 0 | Fin m \<Rightarrow> m - j)")
     (auto split: number.splits)

declare au_inner.simps [simp del]

text \<open>\<^verbatim>\<open>for (let j = 0; j < n; j++) { t += u[j] / a(j, i); }\<close>\<close>

function atu_inner ::
  "('f, 'o) arith \<Rightarrow> number \<Rightarrow> nat \<Rightarrow> nat \<Rightarrow> 'f \<Rightarrow> 'f list \<Rightarrow> 'f" where
  "atu_inner ar n i j t src =
     (if lt (Fin j) n
      then atu_inner ar n i (j + 1) (fadd ar t (fdiv ar (rd ar src j) (dbl ar (a j i)))) src
      else t)"
  by pat_completeness auto
termination
  by (relation "measure (\<lambda>(ar, n, i, j, t, src). case n of NaN \<Rightarrow> 0 | Fin m \<Rightarrow> m - j)")
     (auto split: number.splits)

declare atu_inner.simps [simp del]

text \<open>
  The outer loops, from the current row \<open>i\<close> on. \<open>f1\<close> and \<open>f2\<close> name the source and the
  destination view; each row reads the source as the store holds it at that moment, so a
  call with \<open>f1 = f2\<close> sees its own writes, as the two aliased arrays would.
\<close>

function au_outer ::
  "('f, 'o) arith \<Rightarrow> number \<Rightarrow> nat \<Rightarrow> number \<Rightarrow> 'f UVW \<Rightarrow> UVWField \<Rightarrow> UVWField \<Rightarrow> 'f UVW"
  where
  "au_outer ar n i e buf f1 f2 =
     (if lt (Fin i) e
      then au_outer ar n (i + 1) e
             (buf(f2 := (buf f2)[i := au_inner ar n i 0 (dbl ar 0) (buf f1)])) f1 f2
      else buf)"
  by pat_completeness auto
termination
  by (relation "measure (\<lambda>(ar, n, i, e, buf, f1, f2). case e of NaN \<Rightarrow> 0 | Fin m \<Rightarrow> m - i)")
     (auto split: number.splits)

declare au_outer.simps [simp del]

function atu_outer ::
  "('f, 'o) arith \<Rightarrow> number \<Rightarrow> nat \<Rightarrow> number \<Rightarrow> 'f UVW \<Rightarrow> UVWField \<Rightarrow> UVWField \<Rightarrow> 'f UVW"
  where
  "atu_outer ar n i e buf f1 f2 =
     (if lt (Fin i) e
      then atu_outer ar n (i + 1) e
             (buf(f2 := (buf f2)[i := atu_inner ar n i 0 (dbl ar 0) (buf f1)])) f1 f2
      else buf)"
  by pat_completeness auto
termination
  by (relation "measure (\<lambda>(ar, n, i, e, buf, f1, f2). case e of NaN \<Rightarrow> 0 | Fin m \<Rightarrow> m - i)")
     (auto split: number.splits)

declare atu_outer.simps [simp del]

text \<open>
  \<^verbatim>\<open>au(u, v)\<close> and \<^verbatim>\<open>atu(u, v)\<close> of a worker with data \<open>{n, start, end}\<close>. The loop
  variable starts at \<open>start\<close>; a NaN there fails the guard \<^verbatim>\<open>i < end\<close> at once.
\<close>

definition au ::
  "('f, 'o) arith \<Rightarrow> workerData \<Rightarrow> 'f UVW \<Rightarrow> UVWField \<Rightarrow> UVWField \<Rightarrow> 'f UVW" where
  "au ar wd buf f1 f2 =
     (case wstart wd of
        NaN \<Rightarrow> buf
      | Fin s \<Rightarrow> au_outer ar (wn wd) s (wend wd) buf f1 f2)"

definition atu ::
  "('f, 'o) arith \<Rightarrow> workerData \<Rightarrow> 'f UVW \<Rightarrow> UVWField \<Rightarrow> UVWField \<Rightarrow> 'f UVW" where
  "atu ar wd buf f1 f2 =
     (case wstart wd of
        NaN \<Rightarrow> buf
      | Fin s \<Rightarrow> atu_outer ar (wn wd) s (wend wd) buf f1 f2)"

text \<open>
  The specification's sums, \<open>j\<close> ascending with one running accumulator:
  \<open>sum over j in [0, n) of src[j] / a(i, j)\<close>, and the same with \<open>a(j, i)\<close>.
\<close>

definition forward_sum :: "('f, 'o) arith \<Rightarrow> nat \<Rightarrow> 'f list \<Rightarrow> nat \<Rightarrow> 'f" where
  "forward_sum ar n src i =
     foldl (\<lambda>t j. fadd ar t (fdiv ar (src ! j) (dbl ar (a i j)))) (dbl ar 0) [0..<n]"

definition transpose_sum :: "('f, 'o) arith \<Rightarrow> nat \<Rightarrow> 'f list \<Rightarrow> nat \<Rightarrow> 'f" where
  "transpose_sum ar n src i =
     foldl (\<lambda>t j. fadd ar t (fdiv ar (src ! j) (dbl ar (a j i)))) (dbl ar 0) [0..<n]"

section \<open>The worker\<close>

text \<open>
  The message handler of \<^verbatim>\<open>workerThread\<close>. The worker's variable \<^verbatim>\<open>data\<close> is undefined
  until the \<open>Sab\<close> message sets it to the views of the shared buffer; the model keeps
  whether it is defined, and the one shared store. A handler call either throws, or
  returns with the new \<^verbatim>\<open>data\<close>, the store and the number of completion messages it
  posted to the parent, or exits the worker.
\<close>

datatype 'f reaction = Threw string | Continue bool "'f UVW" nat | Exited

fun onMessage ::
  "('f, 'o) arith \<Rightarrow> workerData \<Rightarrow> bool \<Rightarrow> 'f UVW \<Rightarrow> Message \<Rightarrow> 'f reaction" where
  "onMessage ar wd data buf Sab = Continue True buf 0"
| "onMessage ar wd data buf (Au vec1 vec2) =
     (if \<not> data then Threw ''Au received before Sab''
      else Continue data (au ar wd buf vec1 vec2) 1)"
| "onMessage ar wd data buf (Atu vec1 vec2) =
     (if \<not> data then Threw ''Atu received before Sab''
      else Continue data (atu ar wd buf vec1 vec2) 1)"
| "onMessage ar wd data buf Exit = Exited"

text \<open>
  A worker handling the messages of its port in order, from \<^verbatim>\<open>data\<close> undefined: the
  outcome of the last handler call, with the completion messages posted in all.
\<close>

fun workerThread ::
  "('f, 'o) arith \<Rightarrow> workerData \<Rightarrow> bool \<Rightarrow> 'f UVW \<Rightarrow> nat \<Rightarrow> Message list \<Rightarrow> 'f reaction"
  where
  "workerThread ar wd data buf posted [] = Continue data buf posted"
| "workerThread ar wd data buf posted (m # ms) =
     (case onMessage ar wd data buf m of
        Threw err \<Rightarrow> Threw err
      | Exited \<Rightarrow> Exited
      | Continue data' buf' k \<Rightarrow> workerThread ar wd data' buf' (posted + k) ms)"

section \<open>The coordinator: starting the workers\<close>

text \<open>
  \<^verbatim>\<open>Math.ceil(n / cpus)\<close>, for at least one CPU. The quotient of a natural below \<open>2^53\<close>
  by a positive natural rounds to a double that lies strictly above the integer below the
  quotient unless the quotient is that integer, so \<^verbatim>\<open>Math.ceil\<close> gives the exact ceiling.
\<close>

fun ceil_div :: "number \<Rightarrow> nat \<Rightarrow> number" where
  "ceil_div NaN cpus = NaN"
| "ceil_div (Fin k) cpus = Fin ((k + cpus - 1) div cpus)"

text \<open>
  The loop of \<^verbatim>\<open>startWorkers\<close> from the current \<open>i\<close> on; \<open>ws\<close> collects the
  \<^verbatim>\<open>workerData\<close> of the workers created so far, in the order of creation, which is the
  order in which the set \<^verbatim>\<open>workers\<close> is iterated.
\<close>

function startWorkers_loop ::
  "nat \<Rightarrow> nat \<Rightarrow> number \<Rightarrow> number \<Rightarrow> workerData list \<Rightarrow> workerData list" where
  "startWorkers_loop i cpus chunk n ws =
     (if i < cpus
      then (let start = nmul (Fin i) chunk;
                e = nadd start chunk;
                e = (if lt n e then n else e)
            in startWorkers_loop (i + 1) cpus chunk n
                 (ws @ [\<lparr>wn = n, wstart = start, wend = e\<rparr>]))
      else ws)"
  by pat_completeness auto
termination
  by (relation "measure (\<lambda>(i, cpus, chunk, n, ws). cpus - i)") auto

declare startWorkers_loop.simps [simp del]

text \<open>
  With no CPU the loop body never runs and the chunk, the ceiling of a division by zero,
  is never used.
\<close>

definition startWorkers :: "nat \<Rightarrow> number \<Rightarrow> workerData list" where
  "startWorkers cpus n =
     (if cpus = 0 then [] else startWorkers_loop 0 cpus (ceil_div n cpus) n [])"

text \<open>The rows that the loops \<^verbatim>\<open>for (let i = start; i < end; i++)\<close> of a worker visit.\<close>

definition rows :: "workerData \<Rightarrow> nat set" where
  "rows wd =
     (case wstart wd of
        NaN \<Rightarrow> {}
      | Fin s \<Rightarrow> (case wend wd of NaN \<Rightarrow> {} | Fin e \<Rightarrow> {s..<e}))"

section \<open>The coordinator: dispatch and reduction\<close>

text \<open>
  A worker, as the coordinator's run sees it: its \<^verbatim>\<open>workerData\<close> and whether its
  \<^verbatim>\<open>data\<close> is defined.
\<close>

type_synonym worker = "workerData \<times> bool"

text \<open>
  One message posted to every worker, and every handler run to its end, the workers taken
  in the order of the set. The result is the error of a worker that threw, or the workers
  and the store afterwards with the number of workers whose completion message reached
  the listener that \<^verbatim>\<open>worker.once('message', ...)\<close> registered for it.
\<close>

fun broadcast ::
  "('f, 'o) arith \<Rightarrow> worker list \<Rightarrow> 'f UVW \<Rightarrow> Message
     \<Rightarrow> string + (worker list \<times> 'f UVW \<times> nat)" where
  "broadcast ar [] buf m = Inr ([], buf, 0)"
| "broadcast ar ((wd, data) # ws) buf m =
     (case onMessage ar wd data buf m of
        Threw err \<Rightarrow> Inl err
      | Exited \<Rightarrow>
          (case broadcast ar ws buf m of
             Inl err \<Rightarrow> Inl err
           | Inr (ws', buf', fired) \<Rightarrow> Inr ((wd, data) # ws', buf', fired))
      | Continue data' buf1 k \<Rightarrow>
          (case broadcast ar ws buf1 m of
             Inl err \<Rightarrow> Inl err
           | Inr (ws', buf', fired) \<Rightarrow>
               Inr ((wd, data') # ws', buf', (if 0 < k then 1 else 0) + fired)))"

text \<open>
  \<^verbatim>\<open>work(message)\<close> and the \<^verbatim>\<open>await\<close> on its promise. The counter \<^verbatim>\<open>wait\<close> is
  the number of workers when the synchronous \<^verbatim>\<open>forEach\<close> ends; each listener that fires
  takes one off and resolves the promise when it finds zero. So the promise resolves when
  every worker has answered, and stays pending when one has not, or when there is no
  worker and no listener ever runs. An error thrown in a worker is uncaught. The list
  \<open>posted\<close> records the messages posted so far, one entry for the copies to all workers.
\<close>

datatype 'f progress =
  Resolved "worker list" "'f UVW" "Message list" | Uncaught string | Pending

definition work ::
  "('f, 'o) arith \<Rightarrow> worker list \<Rightarrow> 'f UVW \<Rightarrow> Message list \<Rightarrow> Message \<Rightarrow> 'f progress"
  where
  "work ar ws buf posted m =
     (case broadcast ar ws buf m of
        Inl err \<Rightarrow> Uncaught err
      | Inr (ws', buf', fired) \<Rightarrow>
          (let wait = length ws - fired
           in if 0 < fired \<and> wait = 0 then Resolved ws' buf' (posted @ [m]) else Pending))"

text \<open>
  \<^verbatim>\<open>async function atAu(u, v, w)\<close>: the parameters are field names and shadow the views.
\<close>

definition atAu ::
  "('f, 'o) arith \<Rightarrow> worker list \<Rightarrow> 'f UVW \<Rightarrow> Message list
     \<Rightarrow> UVWField \<Rightarrow> UVWField \<Rightarrow> UVWField \<Rightarrow> 'f progress" where
  "atAu ar ws buf posted fu fv fw =
     (case work ar ws buf posted (Au fu fw) of
        Resolved ws1 buf1 posted1 \<Rightarrow> work ar ws1 buf1 posted1 (Atu fw fv)
      | Uncaught err \<Rightarrow> Uncaught err
      | Pending \<Rightarrow> Pending)"

text \<open>\<^verbatim>\<open>for (let i = 0; i < 10; i++) { await atAu('u', 'v', 'w'); await atAu('v', 'u', 'w'); }\<close>\<close>

function main_loop ::
  "('f, 'o) arith \<Rightarrow> nat \<Rightarrow> worker list \<Rightarrow> 'f UVW \<Rightarrow> Message list \<Rightarrow> 'f progress" where
  "main_loop ar i ws buf posted =
     (if i < 10
      then (case atAu ar ws buf posted U V W of
              Resolved ws1 buf1 posted1 \<Rightarrow>
                (case atAu ar ws1 buf1 posted1 V U W of
                   Resolved ws2 buf2 posted2 \<Rightarrow> main_loop ar (i + 1) ws2 buf2 posted2
                 | Uncaught err \<Rightarrow> Uncaught err
                 | Pending \<Rightarrow> Pending)
            | Uncaught err \<Rightarrow> Uncaught err
            | Pending \<Rightarrow> Pending)
      else Resolved ws buf posted)"
  by pat_completeness auto
termination
  by (relation "measure (\<lambda>(ar, i, ws, buf, posted). 10 - i)") auto

declare main_loop.simps [simp del]

text \<open>
  \<^verbatim>\<open>for (let i = 0; i < n; i++) { vBv += u[i] * v[i]; vv += v[i] * v[i]; }\<close> from the
  current \<open>i\<close> on.
\<close>

function reduce_loop ::
  "('f, 'o) arith \<Rightarrow> number \<Rightarrow> nat \<Rightarrow> 'f \<Rightarrow> 'f \<Rightarrow> 'f list \<Rightarrow> 'f list \<Rightarrow> 'f \<times> 'f" where
  "reduce_loop ar n i vBv vv us vs =
     (if lt (Fin i) n
      then reduce_loop ar n (i + 1)
             (fadd ar vBv (fmul ar (rd ar us i) (rd ar vs i)))
             (fadd ar vv (fmul ar (rd ar vs i) (rd ar vs i))) us vs
      else (vBv, vv))"
  by pat_completeness auto
termination
  by (relation "measure (\<lambda>(ar, n, i, vBv, vv, us, vs). case n of NaN \<Rightarrow> 0 | Fin m \<Rightarrow> m - i)")
     (auto split: number.splits)

declare reduce_loop.simps [simp del]

text \<open>
  The length that a typed-array constructor makes of its length argument: NaN counts as
  zero. The three views when the main thread has made them: the shared buffer starts
  zeroed, and \<open>u\<close> is filled with ones.
\<close>

fun ToIndex :: "number \<Rightarrow> nat" where
  "ToIndex NaN = 0"
| "ToIndex (Fin k) = k"

definition views :: "('f, 'o) arith \<Rightarrow> number \<Rightarrow> 'f UVW" where
  "views ar n =
     (\<lambda>f. case f of
             U \<Rightarrow> replicate (ToIndex n) (dbl ar 1)
           | V \<Rightarrow> replicate (ToIndex n) (dbl ar 0)
           | W \<Rightarrow> replicate (ToIndex n) (dbl ar 0))"

text \<open>
  \<^verbatim>\<open>new SharedArrayBuffer(3 * bytesPerFloat * n)\<close>. The byte length is the product
  \<open>24 * n\<close> as a double, and zero for NaN. The constructor throws a \<^verbatim>\<open>RangeError\<close> for a
  length above \<open>2^53 - 1\<close> and for one that the engine cannot allocate; \<open>limit\<close> is the
  largest byte length that the engine allocates. The error leaves \<^verbatim>\<open>mainThread\<close> before
  any worker is created.
\<close>

definition byteLength :: "number \<Rightarrow> nat" where
  "byteLength n = (case n of NaN \<Rightarrow> 0 | Fin k \<Rightarrow> fl (24 * k))"

definition alloc :: "('f, 'o) arith \<Rightarrow> nat \<Rightarrow> number \<Rightarrow> string + 'f UVW" where
  "alloc ar limit n =
     (if min limit (2 ^ 53 - 1) < byteLength n then Inl ''RangeError''
      else Inr (views ar n))"

text \<open>
  A run of \<^verbatim>\<open>mainThread(n)\<close> on a host with \<open>cpus\<close> CPUs and the allocation limit
  \<open>limit\<close>: it prints a line, having posted the messages listed; or it dies of an
  uncaught error; or an \<^verbatim>\<open>await\<close> never returns and it prints nothing. Each worker
  finds \<open>Sab\<close> first in its port, since \<^verbatim>\<open>startWorkers\<close> posts it when it creates the
  worker. \<^verbatim>\<open>stopWorkers\<close> posts \<open>Exit\<close> and waits for nothing.
\<close>

datatype 'o result = Printed "Message list" 'o | Failed string | Silent

definition mainThread :: "('f, 'o) arith \<Rightarrow> nat \<Rightarrow> nat \<Rightarrow> number \<Rightarrow> 'o result" where
  "mainThread ar limit cpus n =
     (case alloc ar limit n of
        Inl err \<Rightarrow> Failed err
      | Inr buf0 \<Rightarrow>
          (case broadcast ar (map (\<lambda>wd. (wd, False)) (startWorkers cpus n)) buf0 Sab of
             Inl err \<Rightarrow> Failed err
           | Inr (ws, buf, fired) \<Rightarrow>
               (case main_loop ar 0 ws buf [Sab] of
                  Uncaught err \<Rightarrow> Failed err
                | Pending \<Rightarrow> Silent
                | Resolved ws' buf' posted \<Rightarrow>
                    (case reduce_loop ar n 0 (dbl ar 0) (dbl ar 0) (buf' U) (buf' V) of
                       (vBv, vv) \<Rightarrow>
                         Printed (posted @ [Exit])
                           (toFixed ar (fsqrt ar (fdiv ar vBv vv)) 9)))))"

text \<open>
  The specification's schedule and sums: the units of \<open>atAu(x, y, w)\<close>, the ten rounds, a
  list of units worked off in order, and \<open>sum_i xs[i] * ys[i]\<close>.
\<close>

definition atAu_units :: "UVWField \<Rightarrow> UVWField \<Rightarrow> UVWField \<Rightarrow> Message list" where
  "atAu_units x y w = [Au x w, Atu w y]"

definition schedule :: "Message list" where
  "schedule = concat (replicate 10 (atAu_units U V W @ atAu_units V U W))"

fun run_units ::
  "('f, 'o) arith \<Rightarrow> worker list \<Rightarrow> 'f UVW \<Rightarrow> Message list \<Rightarrow> Message list \<Rightarrow> 'f progress"
  where
  "run_units ar ws buf posted [] = Resolved ws buf posted"
| "run_units ar ws buf posted (m # ms) =
     (case work ar ws buf posted m of
        Resolved ws1 buf1 posted1 \<Rightarrow> run_units ar ws1 buf1 posted1 ms
      | Uncaught err \<Rightarrow> Uncaught err
      | Pending \<Rightarrow> Pending)"

definition dot :: "('f, 'o) arith \<Rightarrow> nat \<Rightarrow> 'f list \<Rightarrow> 'f list \<Rightarrow> 'f" where
  "dot ar n xs ys = foldl (\<lambda>acc i. fadd ar acc (fmul ar (xs ! i) (ys ! i))) (dbl ar 0) [0..<n]"

text \<open>A compute request: a forward or a transpose multiply.\<close>

fun is_compute :: "Message \<Rightarrow> bool" where
  "is_compute (Au x y) = True"
| "is_compute (Atu x y) = True"
| "is_compute Sab = False"
| "is_compute Exit = False"

section \<open>The coordinator and the workers, interleaved\<close>

text \<open>
  The coordinator and the workers run concurrently and meet only in messages. The state
  of the whole system: the shared store; how many units \<^verbatim>\<open>work\<close> has posted, whether
  the coordinator is suspended at an \<^verbatim>\<open>await\<close>, the counter \<^verbatim>\<open>wait\<close> of the pending
  promise and the workers whose \<^verbatim>\<open>once\<close> listener has yet to fire; and for each worker,
  by its position in the set, the messages in its port and those it has taken from it,
  whether its \<^verbatim>\<open>data\<close> is defined, whether it still runs, the compute message it is working on, how many it has begun and
  finished, and its completion messages on their way to the coordinator and received.
\<close>

record 'f sys =
  store :: "'f UVW"
  sent :: nat
  awaiting :: bool
  wait_count :: int
  listening :: "nat set"
  stopped :: bool
  inbox :: "nat \<Rightarrow> Message list"
  taken :: "nat \<Rightarrow> Message list"
  wdata :: "nat \<Rightarrow> bool"
  alive :: "nat \<Rightarrow> bool"
  busy :: "nat \<Rightarrow> Message option"
  started :: "nat \<Rightarrow> nat"
  finished :: "nat \<Rightarrow> nat"
  inflight :: "nat \<Rightarrow> nat"
  received :: "nat \<Rightarrow> nat"

text \<open>The state when \<^verbatim>\<open>startWorkers\<close> returns: \<open>Sab\<close> waits in every port.\<close>

definition init :: "nat \<Rightarrow> 'f UVW \<Rightarrow> 'f sys" where
  "init P buf =
     \<lparr>store = buf, sent = 0, awaiting = False, wait_count = 0, listening = {},
      stopped = False, inbox = (\<lambda>w. if w < P then [Sab] else []), taken = (\<lambda>w. []),
      wdata = (\<lambda>w. False),
      alive = (\<lambda>w. True), busy = (\<lambda>w. None), started = (\<lambda>w. 0), finished = (\<lambda>w. 0),
      inflight = (\<lambda>w. 0), received = (\<lambda>w. 0)\<rparr>"

text \<open>
  The synchronous body of \<^verbatim>\<open>work(message)\<close>: the message goes to every port, every
  worker gets a listener, and \<^verbatim>\<open>wait\<close> has counted the workers when \<^verbatim>\<open>forEach\<close> ends.
\<close>

definition dispatch :: "nat \<Rightarrow> Message \<Rightarrow> 'f sys \<Rightarrow> 'f sys" where
  "dispatch P m s =
     s\<lparr>inbox := (\<lambda>w. if w < P then inbox s w @ [m] else inbox s w),
       listening := listening s \<union> {..<P},
       wait_count := int P,
       awaiting := True,
       sent := sent s + 1\<rparr>"

definition stopWorkers :: "nat \<Rightarrow> 'f sys \<Rightarrow> 'f sys" where
  "stopWorkers P s =
     s\<lparr>inbox := (\<lambda>w. if w < P then inbox s w @ [Exit] else inbox s w), stopped := True\<rparr>"

text \<open>
  A completion message of worker \<open>w\<close> arrives. Its listener, if one is registered, fires
  once: \<^verbatim>\<open>wait--; if (wait === 0) resolve();\<close>. Without a listener the message is
  dropped.
\<close>

definition deliver :: "nat \<Rightarrow> 'f sys \<Rightarrow> 'f sys" where
  "deliver w s =
     (if w \<in> listening s
      then s\<lparr>inflight := (inflight s)(w := inflight s w - 1),
             received := (received s)(w := received s w + 1),
             listening := listening s - {w},
             wait_count := wait_count s - 1,
             awaiting := (if wait_count s - 1 = 0 then False else awaiting s)\<rparr>
      else s\<lparr>inflight := (inflight s)(w := inflight s w - 1)\<rparr>)"

text \<open>
  Worker \<open>w\<close> takes the next message from its port and its handler starts. \<open>Sab\<close> is
  handled at once; a compute message without \<^verbatim>\<open>data\<close> throws and \<open>Exit\<close> exits, and
  either way the worker handles nothing more; otherwise the worker begins to compute.
\<close>

definition worker_receive ::
  "('f, 'o) arith \<Rightarrow> workerData \<Rightarrow> nat \<Rightarrow> 'f sys \<Rightarrow> 'f sys" where
  "worker_receive ar wd w s =
     (case inbox s w of
        [] \<Rightarrow> s
      | m # ms \<Rightarrow>
          (case onMessage ar wd (wdata s w) (store s) m of
             Threw err \<Rightarrow>
               s\<lparr>inbox := (inbox s)(w := ms), taken := (taken s)(w := taken s w @ [m]),
                 alive := (alive s)(w := False)\<rparr>
           | Exited \<Rightarrow>
               s\<lparr>inbox := (inbox s)(w := ms), taken := (taken s)(w := taken s w @ [m]),
                 alive := (alive s)(w := False)\<rparr>
           | Continue data' buf' k \<Rightarrow>
               if k = 0
               then s\<lparr>inbox := (inbox s)(w := ms), taken := (taken s)(w := taken s w @ [m]),
                      wdata := (wdata s)(w := data')\<rparr>
               else s\<lparr>inbox := (inbox s)(w := ms), taken := (taken s)(w := taken s w @ [m]),
                      busy := (busy s)(w := Some m),
                      started := (started s)(w := started s w + 1)\<rparr>))"

text \<open>
  Worker \<open>w\<close> ends its computation: the rows are in the store and the completion message
  is posted.
\<close>

definition worker_finish ::
  "('f, 'o) arith \<Rightarrow> workerData \<Rightarrow> nat \<Rightarrow> 'f sys \<Rightarrow> 'f sys" where
  "worker_finish ar wd w s =
     (case busy s w of
        None \<Rightarrow> s
      | Some m \<Rightarrow>
          (case onMessage ar wd (wdata s w) (store s) m of
             Continue data' buf' k \<Rightarrow>
               s\<lparr>store := buf', wdata := (wdata s)(w := data'), busy := (busy s)(w := None),
                 finished := (finished s)(w := finished s w + 1),
                 inflight := (inflight s)(w := inflight s w + k)\<rparr>
           | Threw err \<Rightarrow> s\<lparr>busy := (busy s)(w := None), alive := (alive s)(w := False)\<rparr>
           | Exited \<Rightarrow> s\<lparr>busy := (busy s)(w := None), alive := (alive s)(w := False)\<rparr>))"

text \<open>
  The steps of a run, for workers \<open>wds\<close> and the list \<open>units\<close> of messages that the
  coordinator hands to \<^verbatim>\<open>work\<close>: the coordinator calls \<^verbatim>\<open>work\<close> for the next unit,
  or \<^verbatim>\<open>stopWorkers\<close> after the last one, only when it is not suspended at an
  \<^verbatim>\<open>await\<close>; a worker that runs and is not computing takes a message from its port; a
  worker that computes ends; a completion message arrives. A step that is not enabled
  gives \<open>None\<close>.
\<close>

datatype event = Post | Stop | Take nat | Done nat | Signal nat

fun fire ::
  "('f, 'o) arith \<Rightarrow> workerData list \<Rightarrow> Message list \<Rightarrow> 'f sys \<Rightarrow> event \<Rightarrow> 'f sys option"
  where
  "fire ar wds units s Post =
     (if \<not> awaiting s \<and> sent s < length units
      then Some (dispatch (length wds) (units ! sent s) s) else None)"
| "fire ar wds units s Stop =
     (if \<not> awaiting s \<and> sent s = length units \<and> \<not> stopped s
      then Some (stopWorkers (length wds) s) else None)"
| "fire ar wds units s (Take w) =
     (if w < length wds \<and> alive s w \<and> busy s w = None \<and> inbox s w \<noteq> []
      then Some (worker_receive ar (wds ! w) w s) else None)"
| "fire ar wds units s (Done w) =
     (if w < length wds \<and> busy s w \<noteq> None
      then Some (worker_finish ar (wds ! w) w s) else None)"
| "fire ar wds units s (Signal w) =
     (if w < length wds \<and> 0 < inflight s w then Some (deliver w s) else None)"

fun replay ::
  "('f, 'o) arith \<Rightarrow> workerData list \<Rightarrow> Message list \<Rightarrow> 'f sys \<Rightarrow> event list \<Rightarrow> 'f sys option"
  where
  "replay ar wds units s [] = Some s"
| "replay ar wds units s (ev # evs) =
     (case fire ar wds units s ev of
        None \<Rightarrow> None
      | Some s' \<Rightarrow> replay ar wds units s' evs)"

text \<open>
  The states that a run can reach from the store \<open>buf0\<close>, in any interleaving of the
  coordinator and the workers.
\<close>

inductive reachable ::
  "('f, 'o) arith \<Rightarrow> workerData list \<Rightarrow> Message list \<Rightarrow> 'f UVW \<Rightarrow> 'f sys \<Rightarrow> bool"
  for ar :: "('f, 'o) arith" and wds :: "workerData list" and units :: "Message list"
    and buf0 :: "'f UVW" where
  start: "reachable ar wds units buf0 (init (length wds) buf0)"
| step: "reachable ar wds units buf0 s \<Longrightarrow> fire ar wds units s ev = Some s' \<Longrightarrow>
      reachable ar wds units buf0 s'"

text \<open>
  A run of two workers on a problem of size 3, used as an example: the first unit is
  posted, each worker takes \<open>Sab\<close> and the unit and computes it, both completion messages
  arrive, the second unit is posted and the first worker begins it. After nine steps the
  coordinator has received both completion messages; \<open>example_state j\<close> is the state
  after \<open>j\<close> steps.
\<close>

definition example_events :: "event list" where
  "example_events =
     [Post, Take 0, Take 0, Done 0, Take 1, Take 1, Done 1, Signal 0, Signal 1, Post, Take 0]"

definition example_state :: "nat \<Rightarrow> fexp sys" where
  "example_state j =
     the (replay sym (startWorkers 2 (Fin 3)) schedule (init 2 (views sym (Fin 3)))
            (take j example_events))"

text \<open>
  The invariant of the reachable states. For a worker: the compute messages in its port,
  in progress and answered but not yet received are covered by its listener, so there is
  at most one; the counters agree with the units posted; a compute message in its port or
  in progress is the unit posted last; and what it has taken from its port and what
  waits there are together what the coordinator has posted.
\<close>

definition ncompute :: "Message list \<Rightarrow> nat" where
  "ncompute ms = length (filter is_compute ms)"

definition busy01 :: "'f sys \<Rightarrow> nat \<Rightarrow> nat" where
  "busy01 s w = (case busy s w of None \<Rightarrow> 0 | Some m \<Rightarrow> 1)"

definition lis01 :: "'f sys \<Rightarrow> nat \<Rightarrow> nat" where
  "lis01 s w = (if w \<in> listening s then 1 else 0)"

text \<open>The unit dispatched last.\<close>

definition current :: "Message list \<Rightarrow> 'f sys \<Rightarrow> Message" where
  "current units s = units ! (sent s - 1)"

definition counts :: "'f sys \<Rightarrow> nat \<Rightarrow> bool" where
  "counts s w \<longleftrightarrow>
     received s w + inflight s w = finished s w
     \<and> finished s w + busy01 s w = started s w
     \<and> started s w + ncompute (inbox s w) \<le> sent s
     \<and> received s w + lis01 s w = sent s
     \<and> ncompute (inbox s w) + busy01 s w + inflight s w \<le> lis01 s w"

definition same_unit :: "Message list \<Rightarrow> 'f sys \<Rightarrow> nat \<Rightarrow> bool" where
  "same_unit units s w \<longleftrightarrow>
     (\<forall>m. busy s w = Some m \<longrightarrow> is_compute m \<and> wdata s w \<and> m = current units s)
     \<and> (\<forall>m\<in>set (inbox s w). is_compute m \<longrightarrow> m = current units s)"

text \<open>Everything posted to a worker so far: \<open>Sab\<close>, the units, and \<open>Exit\<close> at the end.\<close>

definition posted_to :: "Message list \<Rightarrow> 'f sys \<Rightarrow> Message list" where
  "posted_to units s = Sab # take (sent s) units @ (if stopped s then [Exit] else [])"

definition ported :: "Message list \<Rightarrow> 'f sys \<Rightarrow> nat \<Rightarrow> bool" where
  "ported units s w \<longleftrightarrow> taken s w @ inbox s w = posted_to units s"

definition ginv :: "Message list \<Rightarrow> nat \<Rightarrow> 'f sys \<Rightarrow> bool" where
  "ginv units P s \<longleftrightarrow>
     listening s \<subseteq> {..<P}
     \<and> (awaiting s \<longrightarrow> wait_count s = int (card (listening s)))
     \<and> (\<not> awaiting s \<longrightarrow> listening s = {})
     \<and> sent s \<le> length units
     \<and> (stopped s \<longrightarrow> sent s = length units)"

definition barrier_inv :: "Message list \<Rightarrow> nat \<Rightarrow> 'f sys \<Rightarrow> bool" where
  "barrier_inv units P s \<longleftrightarrow>
     ginv units P s \<and> (\<forall>w<P. counts s w \<and> same_unit units s w \<and> ported units s w)"

section \<open>The dense computation\<close>

text \<open>
  What the specification has a unit compute, on whole vectors: the forward multiply of
  \<open>x\<close> into \<open>y\<close> sets every entry \<open>y[i]\<close>, for \<open>i\<close> in \<open>[0, n)\<close>, to the sum over \<open>j\<close> of
  \<open>x[j] / a(i, j)\<close>, and the transpose multiply to the sum of \<open>x[j] / a(j, i)\<close>. A list of
  units is computed one after the other, each on the complete result of the one before.
\<close>

fun dense_unit :: "('f, 'o) arith \<Rightarrow> nat \<Rightarrow> 'f UVW \<Rightarrow> Message \<Rightarrow> 'f UVW" where
  "dense_unit ar n buf (Au x y) = buf(y := map (forward_sum ar n (buf x)) [0..<n])"
| "dense_unit ar n buf (Atu x y) = buf(y := map (transpose_sum ar n (buf x)) [0..<n])"
| "dense_unit ar n buf Sab = buf"
| "dense_unit ar n buf Exit = buf"

definition dense_run :: "('f, 'o) arith \<Rightarrow> nat \<Rightarrow> Message list \<Rightarrow> 'f UVW \<Rightarrow> 'f UVW" where
  "dense_run ar n ms buf = foldl (dense_unit ar n) buf ms"

text \<open>A unit as the coordinator sends it: a compute request whose two vectors differ.\<close>

fun proper :: "Message \<Rightarrow> bool" where
  "proper (Au x y) = (x \<noteq> y)"
| "proper (Atu x y) = (x \<noteq> y)"
| "proper Sab = False"
| "proper Exit = False"

text \<open>
  Workers that share the rows \<open>[0, n)\<close> of a problem of size \<open>n\<close>: no row belongs to
  two, and every row to one.
\<close>

definition shares :: "nat \<Rightarrow> workerData list \<Rightarrow> bool" where
  "shares n wds \<longleftrightarrow>
     (\<forall>w<length wds. wn (wds ! w) = Fin n)
     \<and> (\<forall>w<length wds. \<forall>w'<length wds. w \<noteq> w' \<longrightarrow> rows (wds ! w) \<inter> rows (wds ! w') = {})
     \<and> (\<Union>w<length wds. rows (wds ! w)) = {0..<n}"

text \<open>
  The store of a reachable state, against the dense computation: before the first unit
  it is the initial store; afterwards, with \<open>k\<close> units complete and the next one in
  progress, every vector but the destination is as \<open>k\<close> units leave it, and a row of the
  destination is as \<open>k + 1\<close> units leave it once its worker has finished, and as \<open>k\<close>
  units leave it until then.
\<close>

definition midway ::
  "('f, 'o) arith \<Rightarrow> nat \<Rightarrow> workerData list \<Rightarrow> Message list \<Rightarrow> 'f UVW \<Rightarrow> 'f sys \<Rightarrow> nat
     \<Rightarrow> bool" where
  "midway ar n wds units buf0 s k \<longleftrightarrow>
     (\<forall>x y. units ! k = Au x y \<or> units ! k = Atu x y \<longrightarrow>
        (\<forall>f. f \<noteq> y \<longrightarrow> store s f = dense_run ar n (take k units) buf0 f)
        \<and> (\<forall>w<length wds. \<forall>i\<in>rows (wds ! w).
              store s y ! i =
                (if finished s w = Suc k
                 then dense_run ar n (take (Suc k) units) buf0 y ! i
                 else dense_run ar n (take k units) buf0 y ! i)))"

definition stored ::
  "('f, 'o) arith \<Rightarrow> nat \<Rightarrow> workerData list \<Rightarrow> Message list \<Rightarrow> 'f UVW \<Rightarrow> 'f sys \<Rightarrow> bool"
  where
  "stored ar n wds units buf0 s \<longleftrightarrow>
     (\<forall>f. length (store s f) = n)
     \<and> (case sent s of
          0 \<Rightarrow> store s = buf0
        | Suc k \<Rightarrow> midway ar n wds units buf0 s k)"

lemma ushr_1: "ushr x 1 = x mod 2 ^ 32 div 2"
  by (simp add: ushr_def drop_bit_eq_div unat_div unsigned_of_nat take_bit_eq_mod)

lemma ushr_Suc_0: "ushr x (Suc 0) = x mod 2 ^ 32 div 2"
  using ushr_1 [of x] by simp

lemma a_mod: "a i j = fl ((i + j) * (i + j + 1)) mod 2 ^ 32 div 2 + i + 1"
  by (simp only: a_def ushr_1)

lemma fl_exact: "x < 2 ^ 53 \<Longrightarrow> fl x = x"
  by (simp add: fl_def)

lemma a_small: "(i + j) * (i + j + 1) < 2 ^ 32 \<Longrightarrow> a i j = triangular (i + j) + i + 1"
  by (simp add: a_mod fl_exact triangular_def)

lemma product_bound:
  fixes n i j :: nat
  assumes "n \<le> 32768" "i < n" "j < n"
  shows "(i + j) * (i + j + 1) < 2 ^ 32"
proof -
  have "i + j \<le> 65534" and "i + j + 1 \<le> 65535"
    using assms by simp_all
  then have "(i + j) * (i + j + 1) \<le> 65534 * 65535"
    by (rule mult_le_mono)
  then show ?thesis by simp
qed

section \<open>The loops of the multiplier\<close>

lemma au_inner_foldl:
  assumes "n \<le> length src"
  shows "au_inner ar (Fin n) i j t src =
           foldl (\<lambda>t j. fadd ar t (fdiv ar (src ! j) (dbl ar (a i j)))) t [j..<n]"
  using assms
proof (induction "n - j" arbitrary: j t)
  case 0
  then show ?case by (simp add: au_inner.simps)
next
  case (Suc d)
  then have "j < n" and "d = n - (j + 1)" by simp_all
  with Suc.hyps(1) [of "j + 1"] Suc.prems show ?case
    by (simp add: upt_conv_Cons rd_def au_inner.simps [of ar "Fin n" i j])
qed

lemma au_outer_other: "f \<noteq> f2 \<Longrightarrow> au_outer ar n i e buf f1 f2 f = buf f"
proof (induction ar n i e buf f1 f2 rule: au_outer.induct)
  case (1 ar n i e buf f1 f2)
  then show ?case by (subst au_outer.simps) (simp add: fun_upd_def)
qed

lemma au_outer_length: "length (au_outer ar n i e buf f1 f2 f) = length (buf f)"
proof (induction ar n i e buf f1 f2 rule: au_outer.induct)
  case (1 ar n i e buf f1 f2)
  then show ?case by (subst au_outer.simps) (simp add: fun_upd_def)
qed

lemma au_outer_below: "k < i \<Longrightarrow> au_outer ar n i e buf f1 f2 f ! k = buf f ! k"
proof (induction ar n i e buf f1 f2 rule: au_outer.induct)
  case (1 ar n i e buf f1 f2)
  then show ?case by (subst au_outer.simps) (simp add: fun_upd_def)
qed

lemma au_outer_row:
  assumes "f1 \<noteq> f2" "i \<le> k" "lt (Fin k) e" "k < length (buf f2)"
  shows "au_outer ar n i e buf f1 f2 f2 ! k = au_inner ar n k 0 (dbl ar 0) (buf f1)"
  using assms
proof (induction ar n i e buf f1 f2 rule: au_outer.induct)
  case (1 ar n i e buf f1 f2)
  show ?case
  proof (cases "i = k")
    case True
    with 1 show ?thesis
      by (subst au_outer.simps) (simp add: au_outer_below fun_upd_def)
  next
    case False
    with 1 show ?thesis
      by (subst au_outer.simps) (cases e; simp add: fun_upd_def)
  qed
qed

lemma au_row:
  assumes "f1 \<noteq> f2" "wn wd = Fin n" "wstart wd = Fin s" "wend wd = Fin e"
    and "length (buf f1) = n" "e \<le> length (buf f2)" "s \<le> i" "i < e"
  shows "au ar wd buf f1 f2 f2 ! i = forward_sum ar n (buf f1) i"
proof -
  have "au ar wd buf f1 f2 f2 ! i = au_inner ar (Fin n) i 0 (dbl ar 0) (buf f1)"
    using assms by (simp add: au_def au_outer_row)
  also have "\<dots> = forward_sum ar n (buf f1) i"
    using assms(5) by (simp add: au_inner_foldl forward_sum_def)
  finally show ?thesis .
qed

lemma au_length: "length (au ar wd buf f1 f2 f) = length (buf f)"
  by (simp add: au_def au_outer_length split: number.split)

lemma atu_inner_foldl:
  assumes "n \<le> length src"
  shows "atu_inner ar (Fin n) i j t src =
           foldl (\<lambda>t j. fadd ar t (fdiv ar (src ! j) (dbl ar (a j i)))) t [j..<n]"
  using assms
proof (induction "n - j" arbitrary: j t)
  case 0
  then show ?case by (simp add: atu_inner.simps)
next
  case (Suc d)
  then have "j < n" and "d = n - (j + 1)" by simp_all
  with Suc.hyps(1) [of "j + 1"] Suc.prems show ?case
    by (simp add: upt_conv_Cons rd_def atu_inner.simps [of ar "Fin n" i j])
qed

lemma atu_outer_other: "f \<noteq> f2 \<Longrightarrow> atu_outer ar n i e buf f1 f2 f = buf f"
proof (induction ar n i e buf f1 f2 rule: atu_outer.induct)
  case (1 ar n i e buf f1 f2)
  then show ?case by (subst atu_outer.simps) (simp add: fun_upd_def)
qed

lemma atu_outer_length: "length (atu_outer ar n i e buf f1 f2 f) = length (buf f)"
proof (induction ar n i e buf f1 f2 rule: atu_outer.induct)
  case (1 ar n i e buf f1 f2)
  then show ?case by (subst atu_outer.simps) (simp add: fun_upd_def)
qed

lemma atu_outer_below: "k < i \<Longrightarrow> atu_outer ar n i e buf f1 f2 f ! k = buf f ! k"
proof (induction ar n i e buf f1 f2 rule: atu_outer.induct)
  case (1 ar n i e buf f1 f2)
  then show ?case by (subst atu_outer.simps) (simp add: fun_upd_def)
qed

lemma atu_outer_row:
  assumes "f1 \<noteq> f2" "i \<le> k" "lt (Fin k) e" "k < length (buf f2)"
  shows "atu_outer ar n i e buf f1 f2 f2 ! k = atu_inner ar n k 0 (dbl ar 0) (buf f1)"
  using assms
proof (induction ar n i e buf f1 f2 rule: atu_outer.induct)
  case (1 ar n i e buf f1 f2)
  show ?case
  proof (cases "i = k")
    case True
    with 1 show ?thesis
      by (subst atu_outer.simps) (simp add: atu_outer_below fun_upd_def)
  next
    case False
    with 1 show ?thesis
      by (subst atu_outer.simps) (cases e; simp add: fun_upd_def)
  qed
qed

lemma atu_row:
  assumes "f1 \<noteq> f2" "wn wd = Fin n" "wstart wd = Fin s" "wend wd = Fin e"
    and "length (buf f1) = n" "e \<le> length (buf f2)" "s \<le> i" "i < e"
  shows "atu ar wd buf f1 f2 f2 ! i = transpose_sum ar n (buf f1) i"
proof -
  have "atu ar wd buf f1 f2 f2 ! i = atu_inner ar (Fin n) i 0 (dbl ar 0) (buf f1)"
    using assms by (simp add: atu_def atu_outer_row)
  also have "\<dots> = transpose_sum ar n (buf f1) i"
    using assms(5) by (simp add: atu_inner_foldl transpose_sum_def)
  finally show ?thesis .
qed

lemma atu_length: "length (atu ar wd buf f1 f2 f) = length (buf f)"
  by (simp add: atu_def atu_outer_length split: number.split)

section \<open>The order of the workers\<close>

lemma au_outer_above:
  "\<not> lt (Fin k) e \<Longrightarrow> au_outer ar n i e buf f1 f2 f ! k = buf f ! k"
proof (induction ar n i e buf f1 f2 rule: au_outer.induct)
  case (1 ar n i e buf f1 f2)
  show ?case
  proof (cases "lt (Fin i) e")
    case True
    with 1(2) have "i \<noteq> k" by auto
    with 1 True show ?thesis
      by (subst au_outer.simps) (simp add: fun_upd_def)
  next
    case False
    then show ?thesis by (subst au_outer.simps) simp
  qed
qed

lemma au_other: "f \<noteq> f2 \<Longrightarrow> au ar wd buf f1 f2 f = buf f"
  by (simp add: au_def au_outer_other split: number.split)

lemma au_nth:
  assumes "f1 \<noteq> f2" "k < length (buf f2)"
  shows "au ar wd buf f1 f2 f2 ! k =
           (if k \<in> rows wd then au_inner ar (wn wd) k 0 (dbl ar 0) (buf f1) else buf f2 ! k)"
proof (cases "wstart wd")
  case NaN
  then show ?thesis by (simp add: au_def rows_def)
next
  case (Fin s)
  show ?thesis
  proof (cases "k \<in> rows wd")
    case True
    with Fin obtain e where e: "wend wd = Fin e" and k: "s \<le> k" "k < e"
      by (cases "wend wd") (auto simp add: rows_def)
    with Fin assms True show ?thesis
      by (simp add: au_def au_outer_row)
  next
    case False
    with Fin have "k < s \<or> \<not> lt (Fin k) (wend wd)"
      by (cases "wend wd") (auto simp add: rows_def)
    then show ?thesis
    proof
      assume "k < s"
      with Fin False show ?thesis by (simp add: au_def au_outer_below)
    next
      assume "\<not> lt (Fin k) (wend wd)"
      with Fin False show ?thesis by (simp add: au_def au_outer_above)
    qed
  qed
qed

text \<open>
  Two workers with disjoint rows and a destination distinct from the source leave the
  same store in either order: each reads the source only and writes its own rows only.
\<close>

lemma au_commute:
  assumes "f1 \<noteq> f2" "rows wd \<inter> rows wd' = {}"
  shows "au ar wd (au ar wd' buf f1 f2) f1 f2 = au ar wd' (au ar wd buf f1 f2) f1 f2"
proof
  fix f
  show "au ar wd (au ar wd' buf f1 f2) f1 f2 f = au ar wd' (au ar wd buf f1 f2) f1 f2 f"
  proof (cases "f = f2")
    case False
    then show ?thesis by (simp add: au_other)
  next
    case True
    have "au ar wd (au ar wd' buf f1 f2) f1 f2 f2 = au ar wd' (au ar wd buf f1 f2) f1 f2 f2"
    proof (rule nth_equalityI)
      show "length (au ar wd (au ar wd' buf f1 f2) f1 f2 f2)
          = length (au ar wd' (au ar wd buf f1 f2) f1 f2 f2)"
        by (simp add: au_length)
    next
      fix k assume "k < length (au ar wd (au ar wd' buf f1 f2) f1 f2 f2)"
      then have k: "k < length (buf f2)" by (simp add: au_length)
      have src: "au ar wd' buf f1 f2 f1 = buf f1" "au ar wd buf f1 f2 f1 = buf f1"
        using assms(1) by (simp_all add: au_other)
      from assms(2) have "\<not> (k \<in> rows wd \<and> k \<in> rows wd')" by auto
      with assms(1) k src
      show "au ar wd (au ar wd' buf f1 f2) f1 f2 f2 ! k
          = au ar wd' (au ar wd buf f1 f2) f1 f2 f2 ! k"
        by (simp add: au_nth au_length)
    qed
    with True show ?thesis by simp
  qed
qed

lemma atu_outer_above:
  "\<not> lt (Fin k) e \<Longrightarrow> atu_outer ar n i e buf f1 f2 f ! k = buf f ! k"
proof (induction ar n i e buf f1 f2 rule: atu_outer.induct)
  case (1 ar n i e buf f1 f2)
  show ?case
  proof (cases "lt (Fin i) e")
    case True
    with 1(2) have "i \<noteq> k" by auto
    with 1 True show ?thesis
      by (subst atu_outer.simps) (simp add: fun_upd_def)
  next
    case False
    then show ?thesis by (subst atu_outer.simps) simp
  qed
qed

lemma atu_other: "f \<noteq> f2 \<Longrightarrow> atu ar wd buf f1 f2 f = buf f"
  by (simp add: atu_def atu_outer_other split: number.split)

lemma atu_nth:
  assumes "f1 \<noteq> f2" "k < length (buf f2)"
  shows "atu ar wd buf f1 f2 f2 ! k =
           (if k \<in> rows wd then atu_inner ar (wn wd) k 0 (dbl ar 0) (buf f1) else buf f2 ! k)"
proof (cases "wstart wd")
  case NaN
  then show ?thesis by (simp add: atu_def rows_def)
next
  case (Fin s)
  show ?thesis
  proof (cases "k \<in> rows wd")
    case True
    with Fin obtain e where e: "wend wd = Fin e" and k: "s \<le> k" "k < e"
      by (cases "wend wd") (auto simp add: rows_def)
    with Fin assms True show ?thesis
      by (simp add: atu_def atu_outer_row)
  next
    case False
    with Fin have "k < s \<or> \<not> lt (Fin k) (wend wd)"
      by (cases "wend wd") (auto simp add: rows_def)
    then show ?thesis
    proof
      assume "k < s"
      with Fin False show ?thesis by (simp add: atu_def atu_outer_below)
    next
      assume "\<not> lt (Fin k) (wend wd)"
      with Fin False show ?thesis by (simp add: atu_def atu_outer_above)
    qed
  qed
qed

text \<open>
  Two workers with disjoint rows and a destination distinct from the source leave the
  same store in either order: each reads the source only and writes its own rows only.
\<close>

lemma atu_commute:
  assumes "f1 \<noteq> f2" "rows wd \<inter> rows wd' = {}"
  shows "atu ar wd (atu ar wd' buf f1 f2) f1 f2 = atu ar wd' (atu ar wd buf f1 f2) f1 f2"
proof
  fix f
  show "atu ar wd (atu ar wd' buf f1 f2) f1 f2 f = atu ar wd' (atu ar wd buf f1 f2) f1 f2 f"
  proof (cases "f = f2")
    case False
    then show ?thesis by (simp add: atu_other)
  next
    case True
    have "atu ar wd (atu ar wd' buf f1 f2) f1 f2 f2 = atu ar wd' (atu ar wd buf f1 f2) f1 f2 f2"
    proof (rule nth_equalityI)
      show "length (atu ar wd (atu ar wd' buf f1 f2) f1 f2 f2)
          = length (atu ar wd' (atu ar wd buf f1 f2) f1 f2 f2)"
        by (simp add: atu_length)
    next
      fix k assume "k < length (atu ar wd (atu ar wd' buf f1 f2) f1 f2 f2)"
      then have k: "k < length (buf f2)" by (simp add: atu_length)
      have src: "atu ar wd' buf f1 f2 f1 = buf f1" "atu ar wd buf f1 f2 f1 = buf f1"
        using assms(1) by (simp_all add: atu_other)
      from assms(2) have "\<not> (k \<in> rows wd \<and> k \<in> rows wd')" by auto
      with assms(1) k src
      show "atu ar wd (atu ar wd' buf f1 f2) f1 f2 f2 ! k
          = atu ar wd' (atu ar wd buf f1 f2) f1 f2 f2 ! k"
        by (simp add: atu_nth atu_length)
    qed
    with True show ?thesis by simp
  qed
qed

section \<open>The row partition\<close>

lemma startWorkers_loop_map:
  assumes "i \<le> P"
  shows "startWorkers_loop i P (Fin c) (Fin n) ws =
           ws @ map (\<lambda>k. \<lparr>wn = Fin n, wstart = Fin (k * c), wend = Fin (min (k * c + c) n)\<rparr>)
                  [i..<P]"
  using assms
proof (induction "P - i" arbitrary: i ws)
  case 0
  then show ?case by (simp add: startWorkers_loop.simps)
next
  case (Suc d)
  then have "i < P" and "d = P - (i + 1)" and "i + 1 \<le> P" by simp_all
  with Suc.hyps(1) [of "i + 1"] show ?case
    by (subst startWorkers_loop.simps) (auto simp add: upt_conv_Cons Let_def min_def)
qed

lemma startWorkers_nth:
  assumes "0 < P" "k < P"
  shows "startWorkers P (Fin n) ! k =
           \<lparr>wn = Fin n, wstart = Fin (k * ((n + P - 1) div P)),
            wend = Fin (min (k * ((n + P - 1) div P) + (n + P - 1) div P) n)\<rparr>"
  using assms by (simp add: startWorkers_def startWorkers_loop_map)

lemma startWorkers_length: "length (startWorkers P (Fin n)) = P"
  by (simp add: startWorkers_def startWorkers_loop_map)

lemma rows_startWorkers:
  assumes "0 < P" "k < P"
  shows "rows (startWorkers P (Fin n) ! k) =
           {k * ((n + P - 1) div P) ..< min (k * ((n + P - 1) div P) + (n + P - 1) div P) n}"
  using assms by (simp add: startWorkers_nth rows_def)

lemma ceil_cover:
  fixes n P :: nat
  assumes "0 < P"
  shows "n \<le> P * ((n + P - 1) div P)"
proof -
  have "P * ((n + P - 1) div P) + (n + P - 1) mod P = n + P - 1"
    by simp
  moreover have "(n + P - 1) mod P < P"
    using assms by simp
  ultimately show ?thesis
    by linarith
qed

text \<open>The chunk is the ceiling of the real quotient, as \<^verbatim>\<open>Math.ceil(n / cpus)\<close> is.\<close>

lemma ceil_div_ceiling:
  fixes n P :: nat
  assumes "0 < P"
  shows "ceil_div (Fin n) P = Fin (nat \<lceil>real n / real P\<rceil>)"
proof -
  let ?q = "(n + P - 1) div P"
  have up: "n \<le> P * ?q" using assms by (rule ceil_cover)
  have "P * ?q \<le> n + P - 1" by simp
  then have lo: "P * ?q < n + P" using assms by linarith
  have "real n \<le> real P * real ?q"
    using up by (metis of_nat_le_iff of_nat_mult)
  then have 1: "real n / real P \<le> real ?q"
    using assms by (simp add: divide_le_eq mult.commute)
  have "real P * real ?q < real n + real P"
    using lo by (metis of_nat_less_iff of_nat_mult of_nat_add)
  then have "real P * (real ?q - 1) < real n"
    by (simp add: algebra_simps)
  then have 2: "real ?q - 1 < real n / real P"
    using assms by (simp add: less_divide_eq mult.commute)
  have "\<lceil>real n / real P\<rceil> = int ?q"
    by (rule ceiling_unique) (use 1 2 in simp_all)
  then show ?thesis by simp
qed

lemma chunks_union:
  fixes n P c :: nat
  assumes "0 < c" "n \<le> P * c"
  shows "(\<Union>k<P. {k * c ..< min (k * c + c) n}) = {0..<n}"
proof (intro equalityI subsetI)
  fix x assume "x \<in> (\<Union>k<P. {k * c ..< min (k * c + c) n})"
  then show "x \<in> {0..<n}" by auto
next
  fix x assume "x \<in> {0..<n}"
  then have xn: "x < n" by simp
  let ?k = "x div c"
  have "x < P * c" using xn assms(2) by simp
  then have "?k < P" using assms(1)
    by (simp add: less_mult_imp_div_less mult.commute)
  moreover have "?k * c \<le> x" by simp
  moreover have "x < ?k * c + c"
    using assms(1) dividend_less_div_times [of c x] by (simp add: mult.commute)
  ultimately have "?k \<in> {..<P}" and "x \<in> {?k * c ..< min (?k * c + c) n}"
    using xn by simp_all
  then show "x \<in> (\<Union>k<P. {k * c ..< min (k * c + c) n})"
    by (rule UN_I)
qed

lemma chunks_ascending:
  fixes c :: nat
  assumes "k < l" "x < min (k * c + c) n" "l * c \<le> y"
  shows "x < y"
proof -
  have "Suc k \<le> l" using assms(1) by simp
  then have "Suc k * c \<le> l * c" by (rule mult_le_mono1)
  with assms show ?thesis by simp
qed

lemma rows_ascending:
  assumes "0 < P" "k < l" "l < P"
    and "x \<in> rows (startWorkers P (Fin n) ! k)" "y \<in> rows (startWorkers P (Fin n) ! l)"
  shows "x < y"
proof -
  let ?c = "(n + P - 1) div P"
  have "x < min (k * ?c + ?c) n" and "l * ?c \<le> y"
    using assms by (simp_all add: rows_startWorkers)
  with assms(2) show ?thesis by (rule chunks_ascending)
qed

lemma rows_disjoint:
  assumes "0 < P" "k < P" "l < P" "k \<noteq> l"
  shows "rows (startWorkers P (Fin n) ! k) \<inter> rows (startWorkers P (Fin n) ! l) = {}"
proof (rule ccontr)
  assume "rows (startWorkers P (Fin n) ! k) \<inter> rows (startWorkers P (Fin n) ! l) \<noteq> {}"
  then obtain x where x: "x \<in> rows (startWorkers P (Fin n) ! k)"
      "x \<in> rows (startWorkers P (Fin n) ! l)"
    by blast
  from assms(4) consider "k < l" | "l < k" by linarith
  then show False
  proof cases
    case 1
    from rows_ascending [OF assms(1) 1 assms(3) x] show False by simp
  next
    case 2
    from rows_ascending [OF assms(1) 2 assms(2) x(2) x(1)] show False by simp
  qed
qed

lemma rows_union:
  assumes "0 < n" "0 < P"
  shows "(\<Union>k<P. rows (startWorkers P (Fin n) ! k)) = {0..<n}"
proof -
  let ?c = "(n + P - 1) div P"
  have "0 < ?c" using assms by (simp add: div_greater_zero_iff)
  moreover have "n \<le> P * ?c" using assms(2) by (rule ceil_cover)
  ultimately have "(\<Union>k<P. {k * ?c ..< min (k * ?c + ?c) n}) = {0..<n}"
    by (rule chunks_union)
  moreover have "(\<Union>k<P. rows (startWorkers P (Fin n) ! k))
      = (\<Union>k<P. {k * ?c ..< min (k * ?c + ?c) n})"
    using assms(2) by (simp add: rows_startWorkers)
  ultimately show ?thesis by simp
qed

lemma rows_adjacent:
  assumes "0 < P" "Suc k < P" "rows (startWorkers P (Fin n) ! Suc k) \<noteq> {}"
  shows "wend (startWorkers P (Fin n) ! k) = wstart (startWorkers P (Fin n) ! Suc k)"
proof -
  let ?c = "(n + P - 1) div P"
  have "Suc k * ?c < n"
    using assms by (simp add: rows_startWorkers)
  then have "min (k * ?c + ?c) n = Suc k * ?c" by simp
  with assms(1,2) show ?thesis by (simp add: startWorkers_nth)
qed

section \<open>The run of the coordinator\<close>

lemma main_loop_run_units:
  assumes "i \<le> 10"
  shows "main_loop ar i ws buf posted =
     run_units ar ws buf posted
       (concat (replicate (10 - i) (atAu_units U V W @ atAu_units V U W)))"
  using assms
proof (induction "10 - i" arbitrary: i ws buf posted)
  case 0
  then show ?case by (simp add: main_loop.simps)
next
  case (Suc d)
  then have "i < 10" and "d = 10 - (i + 1)" and "i + 1 \<le> 10" and r: "10 - i = Suc d" by simp_all
  with Suc.hyps(1) [of "i + 1"] show ?case
    by (subst main_loop.simps)
       (simp add: r atAu_def atAu_units_def split: progress.splits)
qed

lemma broadcast_Sab:
  "broadcast ar (map (\<lambda>wd. (wd, False)) wds) buf Sab = Inr (map (\<lambda>wd. (wd, True)) wds, buf, 0)"
  by (induction wds) simp_all

lemma broadcast_ready:
  assumes "\<forall>w\<in>set ws. snd w" "is_compute m"
  shows "\<exists>buf'. broadcast ar ws buf m = Inr (ws, buf', length ws)
            \<and> (\<forall>f. length (buf' f) = length (buf f))"
  using assms
proof (induction ws arbitrary: buf)
  case Nil
  then show ?case by simp
next
  case (Cons w ws)
  obtain wd where w: "w = (wd, True)" using Cons.prems(1) by (cases w) simp
  show ?case
  proof (cases m)
    case (Au x y)
    from Cons.IH [of "au ar wd buf x y"] Cons.prems
    obtain buf' where "broadcast ar ws (au ar wd buf x y) m = Inr (ws, buf', length ws)"
      and "\<forall>f. length (buf' f) = length (au ar wd buf x y f)" by auto
    then show ?thesis using w Au by (simp add: au_length)
  next
    case (Atu x y)
    from Cons.IH [of "atu ar wd buf x y"] Cons.prems
    obtain buf' where "broadcast ar ws (atu ar wd buf x y) m = Inr (ws, buf', length ws)"
      and "\<forall>f. length (buf' f) = length (atu ar wd buf x y f)" by auto
    then show ?thesis using w Atu by (simp add: atu_length)
  qed (use Cons.prems in simp_all)
qed

lemma work_ready:
  assumes "\<forall>w\<in>set ws. snd w" "ws \<noteq> []" "is_compute m"
  shows "\<exists>buf'. work ar ws buf posted m = Resolved ws buf' (posted @ [m])
            \<and> (\<forall>f. length (buf' f) = length (buf f))"
proof -
  from broadcast_ready [OF assms(1,3), of ar buf]
  obtain buf' where "broadcast ar ws buf m = Inr (ws, buf', length ws)"
    and "\<forall>f. length (buf' f) = length (buf f)" by auto
  then show ?thesis using assms(2) by (simp add: work_def)
qed

lemma run_units_ready:
  assumes "\<forall>w\<in>set ws. snd w" "ws \<noteq> []" "\<forall>m\<in>set ms. is_compute m"
  shows "\<exists>buf'. run_units ar ws buf posted ms = Resolved ws buf' (posted @ ms)
            \<and> (\<forall>f. length (buf' f) = length (buf f))"
  using assms(3)
proof (induction ms arbitrary: buf posted)
  case Nil
  then show ?case by simp
next
  case (Cons m ms)
  from work_ready [OF assms(1,2), of m ar buf posted] Cons.prems
  obtain buf1 where 1: "work ar ws buf posted m = Resolved ws buf1 (posted @ [m])"
    and l1: "\<forall>f. length (buf1 f) = length (buf f)" by auto
  from Cons.IH [of buf1 "posted @ [m]"] Cons.prems
  obtain buf' where "run_units ar ws buf1 (posted @ [m]) ms = Resolved ws buf' ((posted @ [m]) @ ms)"
    and "\<forall>f. length (buf' f) = length (buf1 f)" by auto
  with 1 l1 show ?case by simp
qed

lemma reduce_loop_foldl:
  assumes "n \<le> length us" "n \<le> length vs"
  shows "reduce_loop ar (Fin n) i vBv vv us vs =
     (foldl (\<lambda>acc i. fadd ar acc (fmul ar (us ! i) (vs ! i))) vBv [i..<n],
      foldl (\<lambda>acc i. fadd ar acc (fmul ar (vs ! i) (vs ! i))) vv [i..<n])"
proof (induction "n - i" arbitrary: i vBv vv)
  case 0
  then show ?case by (simp add: reduce_loop.simps)
next
  case (Suc d)
  then have "i < n" and "d = n - (i + 1)" by simp_all
  with Suc.hyps(1) [of "i + 1"] assms show ?case
    by (simp add: upt_conv_Cons rd_def reduce_loop.simps [of ar "Fin n" i])
qed

lemma schedule_compute: "\<forall>m\<in>set schedule. is_compute m"
  by (auto simp add: schedule_def atAu_units_def)

lemma startWorkers_loop_NaN:
  assumes "i \<le> P"
  shows "startWorkers_loop i P NaN NaN ws =
           ws @ replicate (P - i) \<lparr>wn = NaN, wstart = NaN, wend = NaN\<rparr>"
  using assms
proof (induction "P - i" arbitrary: i ws)
  case 0
  then show ?case by (simp add: startWorkers_loop.simps)
next
  case (Suc d)
  then have "i < P" and "d = P - (i + 1)" and "i + 1 \<le> P" and r: "P - i = Suc d"
    by simp_all
  with Suc.hyps(1) [of "i + 1"] show ?case
    by (subst startWorkers_loop.simps) (simp add: r)
qed

lemma startWorkers_NaN:
  "startWorkers cpus NaN = replicate cpus \<lparr>wn = NaN, wstart = NaN, wend = NaN\<rparr>"
  by (simp add: startWorkers_def startWorkers_loop_NaN)

lemma startWorkers_length_any: "length (startWorkers cpus n) = cpus"
  by (cases n) (simp_all add: startWorkers_NaN startWorkers_length)

lemma alloc_ok:
  "byteLength n \<le> min limit (2 ^ 53 - 1) \<Longrightarrow> alloc ar limit n = Inr (views ar n)"
  by (simp add: alloc_def not_less)

lemma alloc_NaN: "alloc ar limit NaN = Inr (views ar NaN)"
  by (simp add: alloc_def byteLength_def)

lemma views_length: "length (views ar n f) = ToIndex n"
  by (cases f) (simp_all add: views_def)

text \<open>A size that does not allocate ends the run before any worker is created.\<close>

lemma mainThread_RangeError:
  "min limit (2 ^ 53 - 1) < byteLength n \<Longrightarrow> mainThread ar limit cpus n = Failed ''RangeError''"
  by (simp add: mainThread_def alloc_def)

text \<open>
  With at least one CPU and a buffer that allocates, every \<^verbatim>\<open>await\<close> of the run
  returns, whatever \<open>n\<close> is.
\<close>

lemma mainThread_runs:
  assumes "0 < cpus" "alloc ar limit n = Inr (views ar n)"
  shows "\<exists>buf. run_units ar (map (\<lambda>wd. (wd, True)) (startWorkers cpus n)) (views ar n) [Sab]
                 schedule
               = Resolved (map (\<lambda>wd. (wd, True)) (startWorkers cpus n)) buf (Sab # schedule)
            \<and> (\<forall>f. length (buf f) = ToIndex n)
            \<and> mainThread ar limit cpus n =
                (case reduce_loop ar n 0 (dbl ar 0) (dbl ar 0) (buf U) (buf V) of
                   (vBv, vv) \<Rightarrow>
                     Printed (Sab # schedule @ [Exit])
                       (toFixed ar (fsqrt ar (fdiv ar vBv vv)) 9))"
proof -
  let ?ws = "map (\<lambda>wd. (wd, True)) (startWorkers cpus n)"
  have ready: "\<forall>w\<in>set ?ws. snd w" by simp
  have "length ?ws = cpus" by (simp add: startWorkers_length_any)
  with assms have ne: "?ws \<noteq> []" by auto
  from run_units_ready [OF ready ne schedule_compute, of ar "views ar n" "[Sab]"]
  obtain buf where run: "run_units ar ?ws (views ar n) [Sab] schedule
      = Resolved ?ws buf ([Sab] @ schedule)"
    and len: "\<forall>f. length (buf f) = length (views ar n f)" by auto
  have len': "\<forall>f. length (buf f) = ToIndex n"
    using len by (simp add: views_length)
  have "main_loop ar 0 ?ws (views ar n) [Sab] = Resolved ?ws buf (Sab # schedule)"
    using run by (simp add: main_loop_run_units schedule_def)
  then have "mainThread ar limit cpus n =
      (case reduce_loop ar n 0 (dbl ar 0) (dbl ar 0) (buf U) (buf V) of
         (vBv, vv) \<Rightarrow>
           Printed (Sab # schedule @ [Exit]) (toFixed ar (fsqrt ar (fdiv ar vBv vv)) 9))"
    by (simp add: mainThread_def broadcast_Sab assms(2))
  with run len' show ?thesis by auto
qed

lemma mainThread_NaN:
  assumes "0 < cpus"
  shows "startWorkers cpus NaN = replicate cpus \<lparr>wn = NaN, wstart = NaN, wend = NaN\<rparr>
         \<and> mainThread ar limit cpus NaN =
             Printed (Sab # schedule @ [Exit])
               (toFixed ar (fsqrt ar (fdiv ar (dbl ar 0) (dbl ar 0))) 9)"
proof -
  from mainThread_runs [OF assms alloc_NaN, of ar limit]
  obtain buf where "mainThread ar limit cpus NaN =
      (case reduce_loop ar NaN 0 (dbl ar 0) (dbl ar 0) (buf U) (buf V) of
         (vBv, vv) \<Rightarrow>
           Printed (Sab # schedule @ [Exit]) (toFixed ar (fsqrt ar (fdiv ar vBv vv)) 9))"
    by blast
  then show ?thesis
    by (simp add: reduce_loop.simps startWorkers_NaN)
qed

section \<open>The run against the dense computation\<close>

lemma dense_unit_length:
  assumes "\<forall>f. length (buf f) = n"
  shows "length (dense_unit ar n buf m f) = n"
  using assms by (cases m) simp_all

lemma dense_run_length:
  assumes "\<forall>f. length (buf f) = n"
  shows "length (dense_run ar n ms buf f) = n"
  using assms
proof (induction ms arbitrary: buf)
  case Nil
  then show ?case by (simp add: dense_run_def)
next
  case (Cons m ms)
  have "\<forall>f. length (dense_unit ar n buf m f) = n"
    using Cons.prems by (simp add: dense_unit_length)
  from Cons.IH [OF this] show ?case by (simp add: dense_run_def)
qed

lemma dense_run_Suc:
  assumes "k < length units"
  shows "dense_run ar n (take (Suc k) units) buf =
           dense_unit ar n (dense_run ar n (take k units) buf) (units ! k)"
  using assms by (simp add: dense_run_def take_Suc_conv_app_nth)

lemma au_nth_sum:
  assumes "f1 \<noteq> f2" "wn wd = Fin n" "length (buf f1) = n" "k < length (buf f2)"
  shows "au ar wd buf f1 f2 f2 ! k =
           (if k \<in> rows wd then forward_sum ar n (buf f1) k else buf f2 ! k)"
  using assms by (simp add: au_nth au_inner_foldl forward_sum_def)

lemma atu_nth_sum:
  assumes "f1 \<noteq> f2" "wn wd = Fin n" "length (buf f1) = n" "k < length (buf f2)"
  shows "atu ar wd buf f1 f2 f2 ! k =
           (if k \<in> rows wd then transpose_sum ar n (buf f1) k else buf f2 ! k)"
  using assms by (simp add: atu_nth atu_inner_foldl transpose_sum_def)

text \<open>The workers of a list, one after the other, on one unit.\<close>

lemma foldl_au_other:
  "f \<noteq> y \<Longrightarrow> foldl (\<lambda>b wd. au ar wd b x y) buf wds f = buf f"
  by (induction wds arbitrary: buf) (simp_all add: au_other)

lemma foldl_au_length:
  "length (foldl (\<lambda>b wd. au ar wd b x y) buf wds f) = length (buf f)"
  by (induction wds arbitrary: buf) (simp_all add: au_length)

lemma foldl_au_nth:
  assumes "x \<noteq> y" "\<forall>wd\<in>set wds. wn wd = Fin n" "length (buf x) = n" "i < length (buf y)"
  shows "foldl (\<lambda>b wd. au ar wd b x y) buf wds y ! i =
           (if i \<in> (\<Union>wd\<in>set wds. rows wd) then forward_sum ar n (buf x) i else buf y ! i)"
  using assms(2-4)
proof (induction wds arbitrary: buf)
  case Nil
  then show ?case by simp
next
  case (Cons wd wds)
  let ?b = "au ar wd buf x y"
  have x: "?b x = buf x" using assms(1) by (simp add: au_other)
  have "foldl (\<lambda>b wd. au ar wd b x y) ?b wds y ! i =
      (if i \<in> (\<Union>wd\<in>set wds. rows wd) then forward_sum ar n (?b x) i else ?b y ! i)"
    using Cons.prems by (intro Cons.IH) (simp_all add: x au_length)
  moreover have "?b y ! i = (if i \<in> rows wd then forward_sum ar n (buf x) i else buf y ! i)"
    using assms(1) Cons.prems by (simp add: au_nth_sum)
  ultimately show ?case by (simp add: x)
qed

lemma foldl_atu_other:
  "f \<noteq> y \<Longrightarrow> foldl (\<lambda>b wd. atu ar wd b x y) buf wds f = buf f"
  by (induction wds arbitrary: buf) (simp_all add: atu_other)

lemma foldl_atu_length:
  "length (foldl (\<lambda>b wd. atu ar wd b x y) buf wds f) = length (buf f)"
  by (induction wds arbitrary: buf) (simp_all add: atu_length)

lemma foldl_atu_nth:
  assumes "x \<noteq> y" "\<forall>wd\<in>set wds. wn wd = Fin n" "length (buf x) = n" "i < length (buf y)"
  shows "foldl (\<lambda>b wd. atu ar wd b x y) buf wds y ! i =
           (if i \<in> (\<Union>wd\<in>set wds. rows wd) then transpose_sum ar n (buf x) i else buf y ! i)"
  using assms(2-4)
proof (induction wds arbitrary: buf)
  case Nil
  then show ?case by simp
next
  case (Cons wd wds)
  let ?b = "atu ar wd buf x y"
  have x: "?b x = buf x" using assms(1) by (simp add: atu_other)
  have "foldl (\<lambda>b wd. atu ar wd b x y) ?b wds y ! i =
      (if i \<in> (\<Union>wd\<in>set wds. rows wd) then transpose_sum ar n (?b x) i else ?b y ! i)"
    using Cons.prems by (intro Cons.IH) (simp_all add: x atu_length)
  moreover have "?b y ! i = (if i \<in> rows wd then transpose_sum ar n (buf x) i else buf y ! i)"
    using assms(1) Cons.prems by (simp add: atu_nth_sum)
  ultimately show ?case by (simp add: x)
qed

lemma shares_cover:
  assumes "shares n wds"
  shows "(\<Union>wd\<in>set wds. rows wd) = {0..<n}"
proof -
  have "(\<Union>wd\<in>set wds. rows wd) = (\<Union>w<length wds. rows (wds ! w))"
    by (force simp add: in_set_conv_nth)
  with assms show ?thesis by (simp add: shares_def)
qed

lemma shares_wn: "shares n wds \<Longrightarrow> wd \<in> set wds \<Longrightarrow> wn wd = Fin n"
  by (auto simp add: shares_def in_set_conv_nth)

lemma shares_rows: "shares n wds \<Longrightarrow> w < length wds \<Longrightarrow> i \<in> rows (wds ! w) \<Longrightarrow> i < n"
proof -
  assume s: "shares n wds" and w: "w < length wds" and i: "i \<in> rows (wds ! w)"
  from w i have "i \<in> (\<Union>w<length wds. rows (wds ! w))" by blast
  with s show "i < n" by (simp add: shares_def)
qed

lemma foldl_au_dense:
  assumes "x \<noteq> y" "shares n wds" "\<forall>f. length (buf f) = n"
  shows "foldl (\<lambda>b wd. au ar wd b x y) buf wds = dense_unit ar n buf (Au x y)"
proof
  fix f
  show "foldl (\<lambda>b wd. au ar wd b x y) buf wds f = dense_unit ar n buf (Au x y) f"
  proof (cases "f = y")
    case False
    then show ?thesis by (simp add: foldl_au_other)
  next
    case True
    have "foldl (\<lambda>b wd. au ar wd b x y) buf wds y = map (forward_sum ar n (buf x)) [0..<n]"
    proof (rule nth_equalityI)
      show "length (foldl (\<lambda>b wd. au ar wd b x y) buf wds y)
          = length (map (forward_sum ar n (buf x)) [0..<n])"
        using assms(3) by (simp add: foldl_au_length)
    next
      fix i assume "i < length (foldl (\<lambda>b wd. au ar wd b x y) buf wds y)"
      then have i: "i < n" using assms(3) by (simp add: foldl_au_length)
      have "foldl (\<lambda>b wd. au ar wd b x y) buf wds y ! i =
          (if i \<in> (\<Union>wd\<in>set wds. rows wd) then forward_sum ar n (buf x) i else buf y ! i)"
        using assms i by (intro foldl_au_nth) (simp_all add: shares_wn)
      with i show "foldl (\<lambda>b wd. au ar wd b x y) buf wds y ! i
          = map (forward_sum ar n (buf x)) [0..<n] ! i"
        by (simp add: shares_cover [OF assms(2)])
    qed
    with True show ?thesis by simp
  qed
qed

lemma foldl_atu_dense:
  assumes "x \<noteq> y" "shares n wds" "\<forall>f. length (buf f) = n"
  shows "foldl (\<lambda>b wd. atu ar wd b x y) buf wds = dense_unit ar n buf (Atu x y)"
proof
  fix f
  show "foldl (\<lambda>b wd. atu ar wd b x y) buf wds f = dense_unit ar n buf (Atu x y) f"
  proof (cases "f = y")
    case False
    then show ?thesis by (simp add: foldl_atu_other)
  next
    case True
    have "foldl (\<lambda>b wd. atu ar wd b x y) buf wds y = map (transpose_sum ar n (buf x)) [0..<n]"
    proof (rule nth_equalityI)
      show "length (foldl (\<lambda>b wd. atu ar wd b x y) buf wds y)
          = length (map (transpose_sum ar n (buf x)) [0..<n])"
        using assms(3) by (simp add: foldl_atu_length)
    next
      fix i assume "i < length (foldl (\<lambda>b wd. atu ar wd b x y) buf wds y)"
      then have i: "i < n" using assms(3) by (simp add: foldl_atu_length)
      have "foldl (\<lambda>b wd. atu ar wd b x y) buf wds y ! i =
          (if i \<in> (\<Union>wd\<in>set wds. rows wd) then transpose_sum ar n (buf x) i else buf y ! i)"
        using assms i by (intro foldl_atu_nth) (simp_all add: shares_wn)
      with i show "foldl (\<lambda>b wd. atu ar wd b x y) buf wds y ! i
          = map (transpose_sum ar n (buf x)) [0..<n] ! i"
        by (simp add: shares_cover [OF assms(2)])
    qed
    with True show ?thesis by simp
  qed
qed

lemma broadcast_Au_foldl:
  assumes "\<forall>w\<in>set ws. snd w"
  shows "broadcast ar ws buf (Au x y) =
           Inr (ws, foldl (\<lambda>b wd. au ar wd b x y) buf (map fst ws), length ws)"
  using assms
proof (induction ws arbitrary: buf)
  case Nil
  then show ?case by simp
next
  case (Cons w ws)
  obtain wd where w: "w = (wd, True)" using Cons.prems by (cases w) simp
  from Cons.IH [of "au ar wd buf x y"] Cons.prems w show ?case by simp
qed

lemma broadcast_Atu_foldl:
  assumes "\<forall>w\<in>set ws. snd w"
  shows "broadcast ar ws buf (Atu x y) =
           Inr (ws, foldl (\<lambda>b wd. atu ar wd b x y) buf (map fst ws), length ws)"
  using assms
proof (induction ws arbitrary: buf)
  case Nil
  then show ?case by simp
next
  case (Cons w ws)
  obtain wd where w: "w = (wd, True)" using Cons.prems by (cases w) simp
  from Cons.IH [of "atu ar wd buf x y"] Cons.prems w show ?case by simp
qed

lemma work_dense:
  assumes "\<forall>w\<in>set ws. snd w" "ws \<noteq> []" "shares n (map fst ws)" "proper m"
    "\<forall>f. length (buf f) = n"
  shows "work ar ws buf posted m = Resolved ws (dense_unit ar n buf m) (posted @ [m])"
proof (cases m)
  case (Au x y)
  with assms(4) have "x \<noteq> y" by simp
  from foldl_au_dense [OF this assms(3,5)] Au assms(1,2) show ?thesis
    by (simp add: work_def broadcast_Au_foldl)
next
  case (Atu x y)
  with assms(4) have "x \<noteq> y" by simp
  from foldl_atu_dense [OF this assms(3,5)] Atu assms(1,2) show ?thesis
    by (simp add: work_def broadcast_Atu_foldl)
qed (use assms(4) in simp_all)

lemma run_units_dense:
  assumes "\<forall>w\<in>set ws. snd w" "ws \<noteq> []" "shares n (map fst ws)"
    "\<forall>m\<in>set ms. proper m" "\<forall>f. length (buf f) = n"
  shows "run_units ar ws buf posted ms = Resolved ws (dense_run ar n ms buf) (posted @ ms)"
  using assms(4,5)
proof (induction ms arbitrary: buf posted)
  case Nil
  then show ?case by (simp add: dense_run_def)
next
  case (Cons m ms)
  from Cons.prems have m: "proper m" by simp
  have 1: "work ar ws buf posted m = Resolved ws (dense_unit ar n buf m) (posted @ [m])"
    using assms(1-3) m Cons.prems(2) by (rule work_dense)
  have "\<forall>f. length (dense_unit ar n buf m f) = n"
    using Cons.prems(2) by (simp add: dense_unit_length)
  with Cons.prems(1) have "run_units ar ws (dense_unit ar n buf m) (posted @ [m]) ms
      = Resolved ws (dense_run ar n ms (dense_unit ar n buf m)) ((posted @ [m]) @ ms)"
    by (intro Cons.IH) simp_all
  with 1 show ?case by (simp add: dense_run_def)
qed

lemma rows_cover:
  assumes "0 < P"
  shows "(\<Union>k<P. rows (startWorkers P (Fin n) ! k)) = {0..<n}"
proof (cases "n = 0")
  case True
  with assms show ?thesis by (simp add: rows_startWorkers)
next
  case False
  with assms show ?thesis by (simp add: rows_union)
qed

lemma shares_startWorkers:
  assumes "0 < cpus"
  shows "shares n (startWorkers cpus (Fin n))"
  unfolding shares_def startWorkers_length
proof (intro conjI allI impI)
  fix w assume "w < cpus"
  with assms show "wn (startWorkers cpus (Fin n) ! w) = Fin n"
    by (simp add: startWorkers_nth)
next
  fix w w' assume "w < cpus" "w' < cpus" "w \<noteq> w'"
  with assms show "rows (startWorkers cpus (Fin n) ! w) \<inter> rows (startWorkers cpus (Fin n) ! w') = {}"
    by (rule rows_disjoint)
next
  show "(\<Union>w<cpus. rows (startWorkers cpus (Fin n) ! w)) = {0..<n}"
    using assms by (rule rows_cover)
qed

lemma schedule_proper: "\<forall>m\<in>set schedule. proper m"
  by (auto simp add: schedule_def atAu_units_def)

lemma mainThread_dense:
  assumes "0 < cpus" "byteLength (Fin n) \<le> min limit (2 ^ 53 - 1)"
  shows "run_units ar (map (\<lambda>wd. (wd, True)) (startWorkers cpus (Fin n))) (views ar (Fin n))
           [Sab] schedule
         = Resolved (map (\<lambda>wd. (wd, True)) (startWorkers cpus (Fin n)))
             (dense_run ar n schedule (views ar (Fin n))) (Sab # schedule)"
    and "mainThread ar limit cpus (Fin n) =
           Printed (Sab # schedule @ [Exit])
             (toFixed ar
               (fsqrt ar
                 (fdiv ar
                   (dot ar n (dense_run ar n schedule (views ar (Fin n)) U)
                      (dense_run ar n schedule (views ar (Fin n)) V))
                   (dot ar n (dense_run ar n schedule (views ar (Fin n)) V)
                      (dense_run ar n schedule (views ar (Fin n)) V))))
               9)"
proof -
  let ?wds = "startWorkers cpus (Fin n)"
  let ?ws = "map (\<lambda>wd. (wd, True)) ?wds"
  let ?B = "dense_run ar n schedule (views ar (Fin n))"
  have ready: "\<forall>w\<in>set ?ws. snd w" by simp
  have "length ?ws = cpus" by (simp add: startWorkers_length)
  with assms(1) have ne: "?ws \<noteq> []" by auto
  have "map fst ?ws = ?wds" by (simp add: comp_def)
  with assms(1) have sh: "shares n (map fst ?ws)" by (simp add: shares_startWorkers)
  have len: "\<forall>f. length (views ar (Fin n) f) = n" by (simp add: views_length)
  from run_units_dense [OF ready ne sh schedule_proper len, of ar "[Sab]"]
  show run: "run_units ar ?ws (views ar (Fin n)) [Sab] schedule = Resolved ?ws ?B (Sab # schedule)"
    by simp
  then have "main_loop ar 0 ?ws (views ar (Fin n)) [Sab] = Resolved ?ws ?B (Sab # schedule)"
    by (simp add: main_loop_run_units schedule_def)
  moreover have "reduce_loop ar (Fin n) 0 (dbl ar 0) (dbl ar 0) (?B U) (?B V)
      = (dot ar n (?B U) (?B V), dot ar n (?B V) (?B V))"
    using len by (simp add: reduce_loop_foldl dot_def dense_run_length)
  ultimately show "mainThread ar limit cpus (Fin n) =
      Printed (Sab # schedule @ [Exit])
        (toFixed ar (fsqrt ar (fdiv ar (dot ar n (?B U) (?B V)) (dot ar n (?B V) (?B V)))) 9)"
    using alloc_ok [OF assms(2), of ar]
    by (simp add: mainThread_def broadcast_Sab)
qed

section \<open>The invariant of the interleaved run\<close>

lemma ncompute_Nil [simp]: "ncompute [] = 0"
  by (simp add: ncompute_def)

lemma ncompute_Cons [simp]: "ncompute (m # ms) = (if is_compute m then 1 else 0) + ncompute ms"
  by (simp add: ncompute_def)

lemma ncompute_append [simp]: "ncompute (ms @ ms') = ncompute ms + ncompute ms'"
  by (simp add: ncompute_def)

lemma ncompute_0: "ncompute ms = 0 \<Longrightarrow> m \<in> set ms \<Longrightarrow> \<not> is_compute m"
  by (simp add: ncompute_def filter_empty_conv)

lemma onMessage_Continue:
  assumes "onMessage ar wd d buf m = Continue d' buf' k"
  shows "(k = 0 \<and> m = Sab) \<or> (k = 1 \<and> is_compute m \<and> d \<and> d')"
  using assms by (cases m) (auto split: if_splits)

lemma onMessage_compute:
  assumes "is_compute m" "d"
  shows "\<exists>buf'. onMessage ar wd d buf m = Continue d buf' 1"
  using assms by (cases m) auto

lemma counts_init: "counts (init P buf) w"
  by (simp add: counts_def init_def busy01_def lis01_def)

lemma same_unit_init: "same_unit units (init P buf) w"
  by (simp add: same_unit_def init_def)

lemma ginv_init: "ginv units P (init P buf)"
  by (simp add: ginv_def init_def)

lemma idle:
  assumes "counts s w" "ginv units P s" "\<not> awaiting s"
  shows "ncompute (inbox s w) = 0" "busy s w = None" "inflight s w = 0" "received s w = sent s"
proof -
  from assms(2,3) have "lis01 s w = 0" by (simp add: ginv_def lis01_def)
  with assms(1) have "ncompute (inbox s w) + busy01 s w + inflight s w = 0" "received s w = sent s"
    by (simp_all add: counts_def)
  then show "ncompute (inbox s w) = 0" "busy s w = None" "inflight s w = 0" "received s w = sent s"
    by (simp_all add: busy01_def split: option.splits)
qed

lemma counts_dispatch:
  assumes "counts s w" "ginv units P s" "\<not> awaiting s" "w < P"
  shows "counts (dispatch P m s) w"
proof -
  note i = idle [OF assms(1-3)]
  from assms(2,3) have "listening s = {}" by (simp add: ginv_def)
  with assms(1,4) i show ?thesis
    by (simp add: counts_def dispatch_def busy01_def lis01_def)
qed

lemma same_unit_dispatch:
  assumes "counts s w" "ginv units P s" "\<not> awaiting s"
  shows "same_unit units (dispatch P (units ! sent s) s) w"
proof -
  note i = idle [OF assms(1-3)]
  have "\<forall>m\<in>set (inbox s w). \<not> is_compute m"
    using i(1) by (simp add: ncompute_def filter_empty_conv)
  with i(2) show ?thesis
    by (auto simp add: same_unit_def dispatch_def current_def)
qed

lemma ginv_dispatch:
  assumes "ginv units P s" "\<not> awaiting s" "sent s < length units"
  shows "ginv units P (dispatch P m s)"
  using assms by (auto simp add: ginv_def dispatch_def)

lemma counts_stop: "counts s w \<Longrightarrow> counts (stopWorkers P s) w"
  by (simp add: counts_def stopWorkers_def busy01_def lis01_def split: if_splits option.splits)

lemma same_unit_stop: "same_unit units s w \<Longrightarrow> same_unit units (stopWorkers P s) w"
  by (auto simp add: same_unit_def stopWorkers_def current_def)

lemma ginv_stop: "ginv units P s \<Longrightarrow> sent s = length units \<Longrightarrow> ginv units P (stopWorkers P s)"
  by (simp add: ginv_def stopWorkers_def)


lemma counts_receive:
  assumes "counts s w" "busy s w = None"
  shows "counts (worker_receive ar wd w s) w"
proof (cases "inbox s w")
  case Nil
  with assms show ?thesis by (simp add: worker_receive_def)
next
  case (Cons m ms)
  show ?thesis
  proof (cases "onMessage ar wd (wdata s w) (store s) m")
    case (Threw err)
    with Cons assms show ?thesis
      by (simp add: counts_def worker_receive_def busy01_def lis01_def split: if_splits)
  next
    case Exited
    with Cons assms show ?thesis
      by (simp add: counts_def worker_receive_def busy01_def lis01_def split: if_splits)
  next
    case (Continue d' buf' k)
    from onMessage_Continue [OF this] Continue Cons assms show ?thesis
      by (auto simp add: counts_def worker_receive_def busy01_def lis01_def split: if_splits)
  qed
qed

lemma same_unit_receive:
  assumes "same_unit units s w" "busy s w = None"
  shows "same_unit units (worker_receive ar wd w s) w"
proof (cases "inbox s w")
  case Nil
  with assms show ?thesis by (simp add: worker_receive_def)
next
  case (Cons m ms)
  show ?thesis
  proof (cases "onMessage ar wd (wdata s w) (store s) m")
    case (Threw err)
    with Cons assms show ?thesis
      by (simp add: same_unit_def worker_receive_def current_def)
  next
    case Exited
    with Cons assms show ?thesis
      by (simp add: same_unit_def worker_receive_def current_def)
  next
    case (Continue d' buf' k)
    from onMessage_Continue [OF this] Continue Cons assms show ?thesis
      by (auto simp add: same_unit_def worker_receive_def current_def)
  qed
qed

lemma worker_receive_globals [simp]:
  "sent (worker_receive ar wd w s) = sent s"
  "listening (worker_receive ar wd w s) = listening s"
  "awaiting (worker_receive ar wd w s) = awaiting s"
  "wait_count (worker_receive ar wd w s) = wait_count s"
  "received (worker_receive ar wd w s) = received s"
  "inflight (worker_receive ar wd w s) = inflight s"
  "finished (worker_receive ar wd w s) = finished s"
  "stopped (worker_receive ar wd w s) = stopped s"
  "store (worker_receive ar wd w s) = store s"
  by (simp_all add: worker_receive_def split: list.splits reaction.splits)

lemma worker_receive_other [simp]:
  assumes "w' \<noteq> w"
  shows "inbox (worker_receive ar wd w s) w' = inbox s w'"
    "busy (worker_receive ar wd w s) w' = busy s w'"
    "started (worker_receive ar wd w s) w' = started s w'"
    "wdata (worker_receive ar wd w s) w' = wdata s w'"
    "taken (worker_receive ar wd w s) w' = taken s w'"
  using assms by (simp_all add: worker_receive_def split: list.splits reaction.splits)

lemma counts_receive_other:
  assumes "counts s w'" "w' \<noteq> w"
  shows "counts (worker_receive ar wd w s) w'"
  using assms by (simp add: counts_def busy01_def lis01_def)

lemma same_unit_receive_other:
  assumes "same_unit units s w'" "w' \<noteq> w"
  shows "same_unit units (worker_receive ar wd w s) w'"
  using assms by (simp add: same_unit_def current_def)

lemma ginv_receive: "ginv units P s \<Longrightarrow> ginv units P (worker_receive ar wd w s)"
  by (simp add: ginv_def)


lemma worker_finish_globals [simp]:
  "sent (worker_finish ar wd w s) = sent s"
  "listening (worker_finish ar wd w s) = listening s"
  "awaiting (worker_finish ar wd w s) = awaiting s"
  "wait_count (worker_finish ar wd w s) = wait_count s"
  "received (worker_finish ar wd w s) = received s"
  "inbox (worker_finish ar wd w s) = inbox s"
  "started (worker_finish ar wd w s) = started s"
  "taken (worker_finish ar wd w s) = taken s"
  "stopped (worker_finish ar wd w s) = stopped s"
  by (simp_all add: worker_finish_def split: option.splits reaction.splits)

lemma worker_finish_other [simp]:
  assumes "w' \<noteq> w"
  shows "inflight (worker_finish ar wd w s) w' = inflight s w'"
    "busy (worker_finish ar wd w s) w' = busy s w'"
    "finished (worker_finish ar wd w s) w' = finished s w'"
    "wdata (worker_finish ar wd w s) w' = wdata s w'"
  using assms by (simp_all add: worker_finish_def split: option.splits reaction.splits)

lemma counts_finish:
  assumes "counts s w" "same_unit units s w"
  shows "counts (worker_finish ar wd w s) w"
proof (cases "busy s w")
  case None
  with assms show ?thesis by (simp add: worker_finish_def)
next
  case (Some m)
  with assms(2) have "is_compute m" "wdata s w" by (auto simp add: same_unit_def)
  from onMessage_compute [OF this, of ar wd "store s"]
  obtain buf' where "onMessage ar wd (wdata s w) (store s) m = Continue (wdata s w) buf' 1"
    by auto
  with Some assms(1) show ?thesis
    by (simp add: counts_def worker_finish_def busy01_def lis01_def split: if_splits)
qed

lemma same_unit_finish:
  assumes "same_unit units s w"
  shows "same_unit units (worker_finish ar wd w s) w"
  using assms
  by (simp add: same_unit_def current_def)
     (simp add: worker_finish_def split: option.splits reaction.splits)

lemma counts_finish_other:
  assumes "counts s w'" "w' \<noteq> w"
  shows "counts (worker_finish ar wd w s) w'"
  using assms by (simp add: counts_def busy01_def lis01_def)

lemma same_unit_finish_other:
  assumes "same_unit units s w'" "w' \<noteq> w"
  shows "same_unit units (worker_finish ar wd w s) w'"
  using assms by (simp add: same_unit_def current_def)

lemma ginv_finish: "ginv units P s \<Longrightarrow> ginv units P (worker_finish ar wd w s)"
  by (simp add: ginv_def)

lemma deliver_globals [simp]:
  "sent (deliver w s) = sent s"
  "inbox (deliver w s) = inbox s"
  "busy (deliver w s) = busy s"
  "started (deliver w s) = started s"
  "finished (deliver w s) = finished s"
  "wdata (deliver w s) = wdata s"
  "taken (deliver w s) = taken s"
  "stopped (deliver w s) = stopped s"
  "store (deliver w s) = store s"
  by (simp_all add: deliver_def)

lemma deliver_other [simp]:
  assumes "w' \<noteq> w"
  shows "inflight (deliver w s) w' = inflight s w'"
    "received (deliver w s) w' = received s w'"
    "w' \<in> listening (deliver w s) \<longleftrightarrow> w' \<in> listening s"
  using assms by (simp_all add: deliver_def)

lemma inflight_listening:
  assumes "counts s w" "0 < inflight s w"
  shows "w \<in> listening s"
proof (rule ccontr)
  assume "w \<notin> listening s"
  then have "lis01 s w = 0" by (simp add: lis01_def)
  with assms show False by (simp add: counts_def)
qed

lemma counts_deliver:
  assumes "counts s w" "0 < inflight s w"
  shows "counts (deliver w s) w"
proof -
  from assms have "w \<in> listening s" by (rule inflight_listening)
  with assms show ?thesis
    by (simp add: counts_def deliver_def busy01_def lis01_def)
qed

lemma same_unit_deliver: "same_unit units s w' \<Longrightarrow> same_unit units (deliver w s) w'"
  by (simp add: same_unit_def current_def)

lemma counts_deliver_other:
  assumes "counts s w'" "w' \<noteq> w"
  shows "counts (deliver w s) w'"
  using assms by (simp add: counts_def busy01_def lis01_def)

lemma ginv_deliver:
  assumes "ginv units P s" "counts s w" "0 < inflight s w"
  shows "ginv units P (deliver w s)"
proof -
  from assms(2,3) have w: "w \<in> listening s" by (rule inflight_listening)
  with assms(1) have aw: "awaiting s" and wc: "wait_count s = int (card (listening s))"
    and sub: "listening s \<subseteq> {..<P}" and le: "sent s \<le> length units"
    and st: "stopped s \<longrightarrow> sent s = length units"
    by (auto simp add: ginv_def)
  from sub have fin: "finite (listening s)" by (rule finite_subset) simp
  with w have pos: "0 < card (listening s)" by (auto simp add: card_gt_0_iff)
  from fin w have "card (listening s - {w}) = card (listening s) - 1" by simp
  with pos wc have wc': "wait_count s - 1 = int (card (listening s - {w}))" by simp
  show ?thesis
  proof (cases "wait_count s - 1 = 0")
    case True
    with wc' fin have "listening s - {w} = {}" by simp
    with True w le st show ?thesis by (auto simp add: ginv_def deliver_def)
  next
    case False
    with w sub aw wc' le st show ?thesis by (auto simp add: ginv_def deliver_def)
  qed
qed

lemma ported_init: "w < P \<Longrightarrow> ported units (init P buf) w"
  by (simp add: ported_def posted_to_def init_def)

lemma ported_dispatch:
  assumes "ported units s w" "ginv units P s" "sent s < length units" "w < P"
  shows "ported units (dispatch P (units ! sent s) s) w"
proof -
  from assms(2,3) have "\<not> stopped s" by (auto simp add: ginv_def)
  with assms(1,3,4) show ?thesis
    by (simp add: ported_def posted_to_def dispatch_def take_Suc_conv_app_nth)
qed

lemma ported_stop:
  assumes "ported units s w" "\<not> stopped s" "w < P"
  shows "ported units (stopWorkers P s) w"
  using assms by (simp add: ported_def posted_to_def stopWorkers_def)

lemma posted_to_receive [simp]: "posted_to units (worker_receive ar wd w s) = posted_to units s"
  by (simp add: posted_to_def)

lemma posted_to_finish [simp]: "posted_to units (worker_finish ar wd w s) = posted_to units s"
  by (simp add: posted_to_def)

lemma posted_to_deliver [simp]: "posted_to units (deliver w s) = posted_to units s"
  by (simp add: posted_to_def)

lemma ported_receive:
  assumes "ported units s w"
  shows "ported units (worker_receive ar wd w s) w"
proof -
  have "taken (worker_receive ar wd w s) w @ inbox (worker_receive ar wd w s) w
      = taken s w @ inbox s w"
    by (simp add: worker_receive_def split: list.splits reaction.splits)
  with assms show ?thesis by (simp add: ported_def)
qed

lemma ported_receive_other:
  assumes "ported units s w'" "w' \<noteq> w"
  shows "ported units (worker_receive ar wd w s) w'"
  using assms by (simp add: ported_def)

lemma ported_finish: "ported units s w' \<Longrightarrow> ported units (worker_finish ar wd w s) w'"
  by (simp add: ported_def)

lemma ported_deliver: "ported units s w' \<Longrightarrow> ported units (deliver w s) w'"
  by (simp add: ported_def)

lemma invI:
  assumes "ginv units P s" "\<And>w. w < P \<Longrightarrow> counts s w" "\<And>w. w < P \<Longrightarrow> same_unit units s w"
    "\<And>w. w < P \<Longrightarrow> ported units s w"
  shows "barrier_inv units P s"
  using assms by (simp add: barrier_inv_def)

lemma invD:
  assumes "barrier_inv units P s"
  shows "ginv units P s" "w < P \<Longrightarrow> counts s w" "w < P \<Longrightarrow> same_unit units s w"
    "w < P \<Longrightarrow> ported units s w"
  using assms by (simp_all add: barrier_inv_def)

lemma inv_fire:
  assumes inv: "barrier_inv units (length wds) s" and f: "fire ar wds units s ev = Some s'"
  shows "barrier_inv units (length wds) s'"
proof (cases ev)
  case Post
  with f have p: "\<not> awaiting s" "sent s < length units"
    and s': "s' = dispatch (length wds) (units ! sent s) s"
    by (simp_all split: if_splits)
  show ?thesis unfolding s'
  proof (rule invI)
    show "ginv units (length wds) (dispatch (length wds) (units ! sent s) s)"
      using invD(1) [OF inv] p by (rule ginv_dispatch)
  next
    fix w assume w: "w < length wds"
    from invD(2) [OF inv w] invD(1) [OF inv] p(1) w
    show "counts (dispatch (length wds) (units ! sent s) s) w"
      by (rule counts_dispatch)
    from invD(2) [OF inv w] invD(1) [OF inv] p(1)
    show "same_unit units (dispatch (length wds) (units ! sent s) s) w"
      by (rule same_unit_dispatch)
    from invD(4) [OF inv w] invD(1) [OF inv] p(2) w
    show "ported units (dispatch (length wds) (units ! sent s) s) w"
      by (rule ported_dispatch)
  qed
next
  case Stop
  with f have p: "\<not> awaiting s" "sent s = length units" "\<not> stopped s"
    and s': "s' = stopWorkers (length wds) s"
    by (simp_all split: if_splits)
  show ?thesis unfolding s'
  proof (rule invI)
    show "ginv units (length wds) (stopWorkers (length wds) s)"
      using invD(1) [OF inv] p(2) by (rule ginv_stop)
  next
    fix w assume w: "w < length wds"
    from invD(2) [OF inv w] show "counts (stopWorkers (length wds) s) w"
      by (rule counts_stop)
    from invD(3) [OF inv w] show "same_unit units (stopWorkers (length wds) s) w"
      by (rule same_unit_stop)
    from invD(4) [OF inv w] p(3) w show "ported units (stopWorkers (length wds) s) w"
      by (rule ported_stop)
  qed
next
  case (Take w)
  with f have p: "w < length wds" "busy s w = None"
    and s': "s' = worker_receive ar (wds ! w) w s"
    by (simp_all split: if_splits)
  show ?thesis unfolding s'
  proof (rule invI)
    show "ginv units (length wds) (worker_receive ar (wds ! w) w s)"
      using invD(1) [OF inv] by (rule ginv_receive)
  next
    fix w' assume w': "w' < length wds"
    from invD(2) [OF inv w'] p(2) show "counts (worker_receive ar (wds ! w) w s) w'"
      by (cases "w' = w") (simp_all add: counts_receive counts_receive_other)
    from invD(3) [OF inv w'] p(2) show "same_unit units (worker_receive ar (wds ! w) w s) w'"
      by (cases "w' = w") (simp_all add: same_unit_receive same_unit_receive_other)
    from invD(4) [OF inv w'] show "ported units (worker_receive ar (wds ! w) w s) w'"
      by (cases "w' = w") (simp_all add: ported_receive ported_receive_other)
  qed
next
  case (Done w)
  with f have p: "w < length wds" and s': "s' = worker_finish ar (wds ! w) w s"
    by (simp_all split: if_splits)
  show ?thesis unfolding s'
  proof (rule invI)
    show "ginv units (length wds) (worker_finish ar (wds ! w) w s)"
      using invD(1) [OF inv] by (rule ginv_finish)
  next
    fix w' assume w': "w' < length wds"
    from invD(2) [OF inv w'] invD(3) [OF inv w']
    show "counts (worker_finish ar (wds ! w) w s) w'"
      by (cases "w' = w") (auto intro: counts_finish counts_finish_other)
    from invD(3) [OF inv w'] show "same_unit units (worker_finish ar (wds ! w) w s) w'"
      by (cases "w' = w") (simp_all add: same_unit_finish same_unit_finish_other)
    from invD(4) [OF inv w'] show "ported units (worker_finish ar (wds ! w) w s) w'"
      by (rule ported_finish)
  qed
next
  case (Signal w)
  with f have p: "w < length wds" "0 < inflight s w" and s': "s' = deliver w s"
    by (simp_all split: if_splits)
  show ?thesis unfolding s'
  proof (rule invI)
    show "ginv units (length wds) (deliver w s)"
      using invD(1) [OF inv] invD(2) [OF inv p(1)] p(2) by (rule ginv_deliver)
  next
    fix w' assume w': "w' < length wds"
    from invD(2) [OF inv w'] p(2) show "counts (deliver w s) w'"
      by (cases "w' = w") (simp_all add: counts_deliver counts_deliver_other)
    from invD(3) [OF inv w'] show "same_unit units (deliver w s) w'"
      by (rule same_unit_deliver)
    from invD(4) [OF inv w'] show "ported units (deliver w s) w'"
      by (rule ported_deliver)
  qed
qed

lemma reachable_inv:
  assumes "reachable ar wds units buf0 s"
  shows "barrier_inv units (length wds) s"
  using assms
proof (induction rule: reachable.induct)
  case start
  show ?case
    by (rule invI) (simp_all add: counts_init same_unit_init ginv_init ported_init)
next
  case (step s ev s')
  from step.IH step.hyps(2) show ?case by (rule inv_fire)
qed

lemma replay_reachable:
  assumes "reachable ar wds units buf0 s" "replay ar wds units s evs = Some s'"
  shows "reachable ar wds units buf0 s'"
  using assms
proof (induction evs arbitrary: s)
  case Nil
  then show ?case by simp
next
  case (Cons ev evs)
  from Cons.prems(2) obtain s1 where 1: "fire ar wds units s ev = Some s1"
    and 2: "replay ar wds units s1 evs = Some s'"
    by (auto split: option.splits)
  from Cons.prems(1) 1 have "reachable ar wds units buf0 s1" by (rule reachable.step)
  then show ?case using 2 by (rule Cons.IH)
qed

lemma schedule_0: "schedule ! 0 = Au U W"
  by (simp add: schedule_def atAu_units_def numeral_eq_Suc)

section \<open>The store of the interleaved run\<close>

lemma stored_init:
  assumes "\<forall>f. length (buf0 f) = n"
  shows "stored ar n wds units buf0 (init P buf0)"
  using assms by (simp add: stored_def init_def)

lemma finished_idle:
  assumes "counts s w" "ginv units P s" "\<not> awaiting s"
  shows "finished s w = sent s"
proof -
  note i = idle [OF assms]
  from assms(1) have "received s w + inflight s w = finished s w" by (simp add: counts_def)
  with i show ?thesis by simp
qed

lemma finished_busy:
  assumes "counts s w" "busy s w = Some m"
  shows "sent s = Suc (finished s w)"
proof -
  from assms(2) have b: "busy01 s w = 1" by (simp add: busy01_def)
  have l: "lis01 s w \<le> 1" by (simp add: lis01_def)
  from assms(1) b l show ?thesis by (simp add: counts_def)
qed

lemma stored_lens: "stored ar n wds units buf0 s \<Longrightarrow> length (store s f) = n"
  by (simp add: stored_def)

lemma stored_Suc: "stored ar n wds units buf0 s \<Longrightarrow> sent s = Suc k \<Longrightarrow> midway ar n wds units buf0 s k"
  by (simp add: stored_def)

lemma midway_other:
  assumes "midway ar n wds units buf0 s k" "units ! k = Au x y \<or> units ! k = Atu x y" "f \<noteq> y"
  shows "store s f = dense_run ar n (take k units) buf0 f"
  using assms unfolding midway_def by blast

lemma midway_rows:
  assumes "midway ar n wds units buf0 s k" "units ! k = Au x y \<or> units ! k = Atu x y"
    "w < length wds" "i \<in> rows (wds ! w)"
  shows "store s y ! i =
           (if finished s w = Suc k
            then dense_run ar n (take (Suc k) units) buf0 y ! i
            else dense_run ar n (take k units) buf0 y ! i)"
  using assms unfolding midway_def by blast

lemma midwayI:
  assumes "\<And>x y f. units ! k = Au x y \<or> units ! k = Atu x y \<Longrightarrow> f \<noteq> y \<Longrightarrow>
      store s f = dense_run ar n (take k units) buf0 f"
    and "\<And>x y w i. units ! k = Au x y \<or> units ! k = Atu x y \<Longrightarrow> w < length wds \<Longrightarrow>
      i \<in> rows (wds ! w) \<Longrightarrow>
      store s y ! i =
        (if finished s w = Suc k
         then dense_run ar n (take (Suc k) units) buf0 y ! i
         else dense_run ar n (take k units) buf0 y ! i)"
  shows "midway ar n wds units buf0 s k"
  unfolding midway_def using assms by blast

lemma midway_frame:
  assumes "midway ar n wds units buf0 s k" "store s' = store s" "finished s' = finished s"
  shows "midway ar n wds units buf0 s' k"
  using assms(1) unfolding midway_def assms(2,3) .

lemma stored_frame:
  assumes "stored ar n wds units buf0 s" "store s' = store s" "sent s' = sent s"
    "finished s' = finished s"
  shows "stored ar n wds units buf0 s'"
  using assms(1) midway_frame [OF _ assms(2,4)]
  by (auto simp add: stored_def assms(2,3) split: nat.splits)

lemma dense_unit_other:
  assumes "m = Au x y \<or> m = Atu x y" "f \<noteq> y"
  shows "dense_unit ar n buf m f = buf f"
  using assms by auto

text \<open>
  When the coordinator is not waiting, the store is what the units posted so far give
  on whole vectors.
\<close>

lemma stored_quiescent:
  assumes st: "stored ar n wds units buf0 s" and inv: "barrier_inv units (length wds) s"
    and sh: "shares n wds" and pr: "\<forall>m\<in>set units. proper m"
    and len0: "\<forall>f. length (buf0 f) = n" and q: "\<not> awaiting s"
  shows "store s = dense_run ar n (take (sent s) units) buf0"
proof (cases "sent s")
  case 0
  with st show ?thesis by (simp add: stored_def dense_run_def)
next
  case (Suc k)
  let ?D = "\<lambda>j. dense_run ar n (take j units) buf0"
  from invD(1) [OF inv] Suc have k: "k < length units" by (simp add: ginv_def)
  with pr have "proper (units ! k)" by simp
  then obtain x y where m: "units ! k = Au x y \<or> units ! k = Atu x y"
    by (cases "units ! k") auto
  note mid = stored_Suc [OF st Suc]
  have step: "?D (Suc k) = dense_unit ar n (?D k) (units ! k)"
    using k by (rule dense_run_Suc)
  show ?thesis unfolding Suc
  proof
    fix f
    show "store s f = ?D (Suc k) f"
    proof (cases "f = y")
      case False
      from midway_other [OF mid m False] have "store s f = ?D k f" .
      moreover from dense_unit_other [OF m False] have "?D (Suc k) f = ?D k f"
        by (simp add: step)
      ultimately show ?thesis by simp
    next
      case True
      have "store s y = ?D (Suc k) y"
      proof (rule nth_equalityI)
        show "length (store s y) = length (?D (Suc k) y)"
          using stored_lens [OF st] len0 by (simp add: dense_run_length)
      next
        fix i assume "i < length (store s y)"
        with stored_lens [OF st, of y] have "i < n" by simp
        with sh have "i \<in> (\<Union>w<length wds. rows (wds ! w))" by (simp add: shares_def)
        then obtain w where w: "w < length wds" and i: "i \<in> rows (wds ! w)" by blast
        from finished_idle [OF invD(2) [OF inv w] invD(1) [OF inv] q] Suc
        have "finished s w = Suc k" by simp
        with midway_rows [OF mid m w i] show "store s y ! i = ?D (Suc k) y ! i" by simp
      qed
      with True show ?thesis by simp
    qed
  qed
qed

lemma stored_dispatch:
  assumes st: "stored ar n wds units buf0 s" and inv: "barrier_inv units (length wds) s"
    and sh: "shares n wds" and pr: "\<forall>m\<in>set units. proper m"
    and len0: "\<forall>f. length (buf0 f) = n" and q: "\<not> awaiting s"
  shows "stored ar n wds units buf0 (dispatch P m s)"
proof -
  let ?s' = "dispatch P m s"
  from stored_quiescent [OF assms]
  have eq: "store s = dense_run ar n (take (sent s) units) buf0" .
  have fin: "\<And>w. w < length wds \<Longrightarrow> finished s w = sent s"
    using finished_idle [OF invD(2) [OF inv] invD(1) [OF inv] q] by simp
  have s': "store ?s' = store s" "sent ?s' = Suc (sent s)" "finished ?s' = finished s"
    by (simp_all add: dispatch_def)
  have "midway ar n wds units buf0 ?s' (sent s)"
  proof (rule midwayI)
    fix x y f
    show "store ?s' f = dense_run ar n (take (sent s) units) buf0 f"
      by (simp add: s' eq)
  next
    fix x y w i assume "w < length wds"
    then have "finished s w \<noteq> Suc (sent s)" by (simp add: fin)
    then show "store ?s' y ! i =
        (if finished ?s' w = Suc (sent s)
         then dense_run ar n (take (Suc (sent s)) units) buf0 y ! i
         else dense_run ar n (take (sent s) units) buf0 y ! i)"
      by (simp add: s' eq)
  qed
  with stored_lens [OF st] show ?thesis
    by (simp add: stored_def s')
qed


lemma stored_finish_au:
  assumes st: "stored ar n wds units buf0 s" and sh: "shares n wds"
    and w: "w < length wds" and b: "busy s w = Some (Au x y)" and d: "wdata s w"
    and k: "sent s = Suc k" "finished s w = k" "k < length units" "units ! k = Au x y"
    and xy: "x \<noteq> y" and len0: "\<forall>f. length (buf0 f) = n"
  shows "stored ar n wds units buf0 (worker_finish ar (wds ! w) w s)"
proof -
  let ?s' = "worker_finish ar (wds ! w) w s"
  let ?D = "\<lambda>j. dense_run ar n (take j units) buf0"
  have s': "store ?s' = au ar (wds ! w) (store s) x y" "sent ?s' = sent s"
    "finished ?s' = (finished s)(w := Suc k)"
    using b d k(2) by (simp_all add: worker_finish_def)
  note mid = stored_Suc [OF st k(1)]
  have m: "units ! k = Au x y \<or> units ! k = Atu x y" using k(4) by simp
  have wn: "wn (wds ! w) = Fin n" using sh w by (simp add: shares_def)
  have src: "store s x = ?D k x" using midway_other [OF mid m xy] .
  have step: "?D (Suc k) = dense_unit ar n (?D k) (Au x y)"
    using dense_run_Suc [OF k(3), of ar n buf0] k(4) by simp
  have "midway ar n wds units buf0 ?s' k"
  proof (rule midwayI)
    fix x' y' f assume "units ! k = Au x' y' \<or> units ! k = Atu x' y'" "f \<noteq> y'"
    with k(4) have f: "f \<noteq> y" by auto
    then have "store ?s' f = store s f" by (simp add: s' au_other)
    with midway_other [OF mid m f] show "store ?s' f = ?D k f" by simp
  next
    fix x' y' w' i
    assume "units ! k = Au x' y' \<or> units ! k = Atu x' y'" and w': "w' < length wds"
      and i: "i \<in> rows (wds ! w')"
    with k(4) have y': "y' = y" by auto
    from shares_rows [OF sh w' i] have "i < n" .
    then have il: "i < length (store s y)" using stored_lens [OF st, of y] by simp
    have new: "store ?s' y ! i =
        (if i \<in> rows (wds ! w) then forward_sum ar n (store s x) i else store s y ! i)"
      unfolding s' using xy wn stored_lens [OF st, of x] il by (rule au_nth_sum)
    show "store ?s' y' ! i =
        (if finished ?s' w' = Suc k then ?D (Suc k) y' ! i else ?D k y' ! i)"
    proof (cases "w' = w")
      case True
      with i have "store ?s' y ! i = forward_sum ar n (?D k x) i" by (simp add: new src)
      moreover have "?D (Suc k) y ! i = forward_sum ar n (?D k x) i"
        using \<open>i < n\<close> by (simp add: step)
      ultimately show ?thesis using True by (simp add: y' s')
    next
      case False
      with sh w w' have "rows (wds ! w') \<inter> rows (wds ! w) = {}" by (simp add: shares_def)
      with i have "i \<notin> rows (wds ! w)" by blast
      then have "store ?s' y ! i = store s y ! i" by (simp add: new)
      with midway_rows [OF mid m w' i] False show ?thesis by (simp add: y' s')
    qed
  qed
  moreover have "\<forall>f. length (store ?s' f) = n"
    by (simp add: s' au_length stored_lens [OF st])
  ultimately show ?thesis by (simp add: stored_def s' k(1))
qed

lemma stored_finish_atu:
  assumes st: "stored ar n wds units buf0 s" and sh: "shares n wds"
    and w: "w < length wds" and b: "busy s w = Some (Atu x y)" and d: "wdata s w"
    and k: "sent s = Suc k" "finished s w = k" "k < length units" "units ! k = Atu x y"
    and xy: "x \<noteq> y" and len0: "\<forall>f. length (buf0 f) = n"
  shows "stored ar n wds units buf0 (worker_finish ar (wds ! w) w s)"
proof -
  let ?s' = "worker_finish ar (wds ! w) w s"
  let ?D = "\<lambda>j. dense_run ar n (take j units) buf0"
  have s': "store ?s' = atu ar (wds ! w) (store s) x y" "sent ?s' = sent s"
    "finished ?s' = (finished s)(w := Suc k)"
    using b d k(2) by (simp_all add: worker_finish_def)
  note mid = stored_Suc [OF st k(1)]
  have m: "units ! k = Au x y \<or> units ! k = Atu x y" using k(4) by simp
  have wn: "wn (wds ! w) = Fin n" using sh w by (simp add: shares_def)
  have src: "store s x = ?D k x" using midway_other [OF mid m xy] .
  have step: "?D (Suc k) = dense_unit ar n (?D k) (Atu x y)"
    using dense_run_Suc [OF k(3), of ar n buf0] k(4) by simp
  have "midway ar n wds units buf0 ?s' k"
  proof (rule midwayI)
    fix x' y' f assume "units ! k = Au x' y' \<or> units ! k = Atu x' y'" "f \<noteq> y'"
    with k(4) have f: "f \<noteq> y" by auto
    then have "store ?s' f = store s f" by (simp add: s' atu_other)
    with midway_other [OF mid m f] show "store ?s' f = ?D k f" by simp
  next
    fix x' y' w' i
    assume "units ! k = Au x' y' \<or> units ! k = Atu x' y'" and w': "w' < length wds"
      and i: "i \<in> rows (wds ! w')"
    with k(4) have y': "y' = y" by auto
    from shares_rows [OF sh w' i] have "i < n" .
    then have il: "i < length (store s y)" using stored_lens [OF st, of y] by simp
    have new: "store ?s' y ! i =
        (if i \<in> rows (wds ! w) then transpose_sum ar n (store s x) i else store s y ! i)"
      unfolding s' using xy wn stored_lens [OF st, of x] il by (rule atu_nth_sum)
    show "store ?s' y' ! i =
        (if finished ?s' w' = Suc k then ?D (Suc k) y' ! i else ?D k y' ! i)"
    proof (cases "w' = w")
      case True
      with i have "store ?s' y ! i = transpose_sum ar n (?D k x) i" by (simp add: new src)
      moreover have "?D (Suc k) y ! i = transpose_sum ar n (?D k x) i"
        using \<open>i < n\<close> by (simp add: step)
      ultimately show ?thesis using True by (simp add: y' s')
    next
      case False
      with sh w w' have "rows (wds ! w') \<inter> rows (wds ! w) = {}" by (simp add: shares_def)
      with i have "i \<notin> rows (wds ! w)" by blast
      then have "store ?s' y ! i = store s y ! i" by (simp add: new)
      with midway_rows [OF mid m w' i] False show ?thesis by (simp add: y' s')
    qed
  qed
  moreover have "\<forall>f. length (store ?s' f) = n"
    by (simp add: s' atu_length stored_lens [OF st])
  ultimately show ?thesis by (simp add: stored_def s' k(1))
qed

lemma stored_finish:
  assumes st: "stored ar n wds units buf0 s" and inv: "barrier_inv units (length wds) s"
    and sh: "shares n wds" and pr: "\<forall>m\<in>set units. proper m"
    and len0: "\<forall>f. length (buf0 f) = n" and w: "w < length wds"
  shows "stored ar n wds units buf0 (worker_finish ar (wds ! w) w s)"
proof (cases "busy s w")
  case None
  then have "worker_finish ar (wds ! w) w s = s" by (simp add: worker_finish_def)
  with st show ?thesis by simp
next
  case (Some m)
  from invD(3) [OF inv w] Some have d: "wdata s w" and m: "m = units ! (sent s - 1)"
    by (auto simp add: same_unit_def current_def)
  from finished_busy [OF invD(2) [OF inv w] Some]
  have k: "sent s = Suc (finished s w)" .
  with invD(1) [OF inv] have kl: "finished s w < length units" by (simp add: ginv_def)
  from m k have mk: "units ! finished s w = m" by simp
  from pr kl have "proper (units ! finished s w)" by simp
  with mk have "proper m" by simp
  then show ?thesis
  proof (cases m)
    case (Au x y)
    with \<open>proper m\<close> have "x \<noteq> y" by simp
    with st sh w Some d k kl mk len0 Au show ?thesis
      by (intro stored_finish_au [where k = "finished s w" and x = x and y = y]) simp_all
  next
    case (Atu x y)
    with \<open>proper m\<close> have "x \<noteq> y" by simp
    with st sh w Some d k kl mk len0 Atu show ?thesis
      by (intro stored_finish_atu [where k = "finished s w" and x = x and y = y]) simp_all
  qed simp_all
qed

lemma stored_fire:
  assumes st: "stored ar n wds units buf0 s" and inv: "barrier_inv units (length wds) s"
    and sh: "shares n wds" and pr: "\<forall>m\<in>set units. proper m"
    and len0: "\<forall>f. length (buf0 f) = n" and f: "fire ar wds units s ev = Some s'"
  shows "stored ar n wds units buf0 s'"
proof (cases ev)
  case Post
  with f have q: "\<not> awaiting s" and s': "s' = dispatch (length wds) (units ! sent s) s"
    by (simp_all split: if_splits)
  from st inv sh pr len0 q show ?thesis unfolding s' by (rule stored_dispatch)
next
  case Stop
  with f have s': "s' = stopWorkers (length wds) s" by (simp split: if_splits)
  from st show ?thesis unfolding s'
    by (rule stored_frame) (simp_all add: stopWorkers_def)
next
  case (Take w)
  with f have s': "s' = worker_receive ar (wds ! w) w s" by (simp split: if_splits)
  from st show ?thesis unfolding s' by (rule stored_frame) simp_all
next
  case (Done w)
  with f have w: "w < length wds" and s': "s' = worker_finish ar (wds ! w) w s"
    by (simp_all split: if_splits)
  from st inv sh pr len0 w show ?thesis unfolding s' by (rule stored_finish)
next
  case (Signal w)
  with f have s': "s' = deliver w s" by (simp split: if_splits)
  from st show ?thesis unfolding s' by (rule stored_frame) simp_all
qed

lemma reachable_stored:
  assumes "reachable ar wds units buf0 s" and sh: "shares n wds"
    and pr: "\<forall>m\<in>set units. proper m" and len0: "\<forall>f. length (buf0 f) = n"
  shows "stored ar n wds units buf0 s"
  using assms(1)
proof (induction rule: reachable.induct)
  case start
  from len0 show ?case by (rule stored_init)
next
  case (step s ev s')
  from step.IH reachable_inv [OF step.hyps(1)] sh pr len0 step.hyps(2)
  show ?case by (rule stored_fire)
qed

text \<open>
  The store of a run, whenever the coordinator is not waiting, is the dense result of
  the units posted so far.
\<close>

lemma reachable_dense:
  assumes "reachable ar wds units buf0 s" "shares n wds" "\<forall>m\<in>set units. proper m"
    "\<forall>f. length (buf0 f) = n" "\<not> awaiting s"
  shows "store s = dense_run ar n (take (sent s) units) buf0"
  using reachable_stored [OF assms(1-4)] reachable_inv [OF assms(1)] assms(2-5)
  by (rule stored_quiescent)

section \<open>The example run\<close>

lemma schedule_1: "schedule ! Suc 0 = Atu W V"
  by (simp add: schedule_def atAu_units_def numeral_eq_Suc)

lemma schedule_length: "length schedule = 40"
  by (simp add: schedule_def atAu_units_def numeral_eq_Suc)

lemmas example_simps = example_events_def startWorkers_length schedule_0 schedule_1
  schedule_length init_def dispatch_def worker_receive_def worker_finish_def deliver_def

lemma example_replay:
  "replay sym (startWorkers 2 (Fin 3)) schedule (init 2 (views sym (Fin 3)))
     (take 9 example_events) = Some (example_state 9)"
  "replay sym (startWorkers 2 (Fin 3)) schedule (init 2 (views sym (Fin 3)))
     (take 11 example_events) = Some (example_state 11)"
  by (simp_all add: example_state_def example_simps)

lemma example_reachable:
  "reachable sym (startWorkers 2 (Fin 3)) schedule (views sym (Fin 3)) (example_state 9)"
  "reachable sym (startWorkers 2 (Fin 3)) schedule (views sym (Fin 3)) (example_state 11)"
proof -
  have "reachable sym (startWorkers 2 (Fin 3)) schedule (views sym (Fin 3))
      (init (length (startWorkers 2 (Fin 3))) (views sym (Fin 3)))"
    by (rule reachable.start)
  then have r: "reachable sym (startWorkers 2 (Fin 3)) schedule (views sym (Fin 3))
      (init 2 (views sym (Fin 3)))"
    by (simp add: startWorkers_length)
  from r example_replay(1)
  show "reachable sym (startWorkers 2 (Fin 3)) schedule (views sym (Fin 3)) (example_state 9)"
    by (rule replay_reachable)
  from r example_replay(2)
  show "reachable sym (startWorkers 2 (Fin 3)) schedule (views sym (Fin 3)) (example_state 11)"
    by (rule replay_reachable)
qed

lemma example_9:
  "\<not> awaiting (example_state 9)" "sent (example_state 9) = 1"
  by (simp_all add: example_state_def example_simps)

lemma example_11:
  "started (example_state 11) 0 = 2" "finished (example_state 11) 0 = 1"
  "finished (example_state 11) 1 = 1" "started (example_state 11) 1 = 1"
  "sent (example_state 11) = 2"
  "busy (example_state 11) 0 = Some (Atu W V)" "awaiting (example_state 11)"
  "received (example_state 11) 0 = 1" "\<not> stopped (example_state 11)"
  "taken (example_state 11) 0 = [Sab, Au U W, Atu W V]" "inbox (example_state 11) 0 = []"
  "taken (example_state 11) 1 = [Sab, Au U W]" "inbox (example_state 11) 1 = [Atu W V]"
  by (simp_all add: example_state_def example_simps)

lemma take_2_schedule: "take 2 schedule = [Au U W, Atu W V]"
  by (simp add: schedule_def atAu_units_def numeral_eq_Suc)

lemma take_1_schedule: "take 1 schedule = [Au U W]"
  by (simp add: schedule_def atAu_units_def numeral_eq_Suc)

lemma dense_first:
  "dense_run sym 3 [Au U W] (views sym (Fin 3)) W ! 0 =
     FAdd (FAdd (FAdd (FNum 0) (FDiv (FNum 1) (FNum 1))) (FDiv (FNum 1) (FNum 2)))
       (FDiv (FNum 1) (FNum 4))"
  by (simp add: dense_run_def forward_sum_def views_def sym_def a_mod fl_exact upt_rec)

section \<open>Properties of the matrix entry\<close>

text \<open>
  C1. The claim has \<open>a(i, j)\<close> return the reciprocal \<open>1.0 / (triangular(i+j) + i + 1)\<close>.
  The function returns the denominator itself, an integer, and its callers divide by it;
  and the unsigned shift keeps it exact only while the product stays below \<open>2^32\<close>.
  At \<open>(0, 1)\<close> the function returns 2, not one half; at \<open>(32768, 32768)\<close> it returns
  65537, not \<open>triangular 65536 + 32769\<close>.
\<close>

theorem a_reciprocal_counterexample:
  "real (a 0 1) \<noteq> 1 / real (triangular (0 + 1) + 0 + 1)
   \<and> a 32768 32768 \<noteq> triangular (32768 + 32768) + 32768 + 1"
  by (simp add: a_mod fl_exact triangular_def)

text \<open>
  C1, as amended. For every size \<open>n\<close> up to 32768 and all \<open>i, j < n\<close>, \<open>a(i, j)\<close> is the
  integer \<open>triangular(i+j) + i + 1\<close>, the reciprocal of the matrix entry. The function is a
  total HOL function of its two arguments, so it is pure and deterministic.
\<close>

theorem a_returns_denominator:
  "n \<le> 32768 \<Longrightarrow> i < n \<Longrightarrow> j < n \<Longrightarrow> a i j = triangular (i + j) + i + 1"
  by (rule a_small) (rule product_bound)

theorem a_returns_denominator_witness:
  "(100::nat) \<le> 32768 \<and> (3::nat) < 100 \<and> (4::nat) < 100 \<and> a 3 4 = triangular (3 + 4) + 3 + 1"
  using a_returns_denominator [of 100 3 4] by simp

text \<open>
  C6. The claim asks for at least 53 bits of exact integer precision in the triangular
  number. The source computes it as \<^verbatim>\<open>(i + j) * (i + j + 1) >>> 1\<close>, and the shift first
  reduces the product modulo \<open>2^32\<close>: at \<open>i = j = 32768\<close> the product is \<open>2^32 + 65536\<close>
  and the shifted value is 32768, not the triangular number 2147516416.
\<close>

theorem triangular_truncated_counterexample:
  "ushr (fl ((32768 + 32768) * (32768 + 32768 + 1))) 1 \<noteq> triangular (32768 + 32768)
   \<and> ushr (fl ((32768 + 32768) * (32768 + 32768 + 1))) 1 = 32768
   \<and> triangular (32768 + 32768) = 2147516416"
  by (simp add: ushr_Suc_0 fl_exact triangular_def)

text \<open>
  C6, as amended. The triangular number inside \<open>a(i, j)\<close> is exact, with no rounding and no
  truncation by the halving, whenever the product \<open>(i+j) * (i+j+1)\<close> is below \<open>2^32\<close>: the
  integer precision of the computation is 32 bits.
\<close>

theorem triangular_exact_below_2_32:
  "(i + j) * (i + j + 1) < 2 ^ 32 \<Longrightarrow>
     ushr (fl ((i + j) * (i + j + 1))) 1 = triangular (i + j)
     \<and> 2 * triangular (i + j) = (i + j) * (i + j + 1)"
  by (simp add: ushr_Suc_0 fl_exact triangular_def)

theorem triangular_exact_below_2_32_witness:
  "((3::nat) + 4) * (3 + 4 + 1) < 2 ^ 32
   \<and> ushr (fl ((3 + 4) * (3 + 4 + 1))) 1 = triangular (3 + 4)
   \<and> 2 * triangular (3 + 4) = (3 + 4) * (3 + 4 + 1)"
  using triangular_exact_below_2_32 [of 3 4] by simp

text \<open>
  C7. The claim is symmetry, \<open>a(i, j) = a(j, i)\<close>. The function adds its first argument
  after the symmetric triangular part: \<open>a(0, 1) = 2\<close> and \<open>a(1, 0) = 3\<close>.
\<close>

theorem a_symmetry_counterexample: "a 0 1 \<noteq> a 1 0"
  by (simp add: a_mod fl_exact)

text \<open>
  C7, as amended. The two entries differ by the difference of the indices:
  \<open>a(i, j) + j = a(j, i) + i\<close>, so they are equal exactly on the diagonal.
\<close>

theorem a_transpose:
  "a i j + j = a j i + i \<and> (a i j = a j i) = (i = j)"
  by (simp add: a_mod add.commute)

text \<open>
  C10. \<open>a(i, j)\<close> is at least 1 for all indices, in both argument orders, so the divisor
  in \<^verbatim>\<open>u[j] / a(i, j)\<close> and \<^verbatim>\<open>u[j] / a(j, i)\<close> is never zero.
\<close>

theorem a_at_least_one: "1 \<le> a i j \<and> 1 \<le> a j i \<and> a i j \<noteq> 0 \<and> a j i \<noteq> 0"
  by (simp add: a_mod)

section \<open>Properties of the multiplier and of the worker\<close>

text \<open>
  C2. A worker with rows \<open>[s, e)\<close> of a problem of size \<open>n\<close>, a source view of length \<open>n\<close>
  and a destination view, distinct from the source, that holds the rows: after \<open>au\<close>, row
  \<open>i\<close> of the destination is the sum over \<open>j\<close> in \<open>[0, n)\<close> of \<open>src[j] / a(i, j)\<close>, and after
  \<open>atu\<close> the sum of \<open>src[j] / a(j, i)\<close>, each accumulated from zero with \<open>j\<close> ascending
  (a left fold), for every \<open>i\<close> in \<open>[s, e)\<close>.
\<close>

theorem au_atu_rows:
  assumes "f1 \<noteq> f2" "wn wd = Fin n" "wstart wd = Fin s" "wend wd = Fin e"
    and "length (buf f1) = n" "e \<le> length (buf f2)" "s \<le> i" "i < e"
  shows "au ar wd buf f1 f2 f2 ! i = forward_sum ar n (buf f1) i
         \<and> atu ar wd buf f1 f2 f2 ! i = transpose_sum ar n (buf f1) i"
  using assms by (simp add: au_row atu_row)

theorem au_atu_rows_witness:
  "U \<noteq> W
   \<and> wn \<lparr>wn = Fin 2, wstart = Fin 0, wend = Fin 2\<rparr> = Fin 2
   \<and> wstart \<lparr>wn = Fin 2, wstart = Fin 0, wend = Fin 2\<rparr> = Fin 0
   \<and> wend \<lparr>wn = Fin 2, wstart = Fin 0, wend = Fin 2\<rparr> = Fin 2
   \<and> length ((\<lambda>f. [FNum 1, FNum 1]) U) = 2
   \<and> 2 \<le> length ((\<lambda>f. [FNum 1, FNum 1]) W) \<and> (0::nat) \<le> 1 \<and> (1::nat) < 2
   \<and> au sym \<lparr>wn = Fin 2, wstart = Fin 0, wend = Fin 2\<rparr> (\<lambda>f. [FNum 1, FNum 1]) U W W ! 1
       = forward_sum sym 2 [FNum 1, FNum 1] 1
   \<and> atu sym \<lparr>wn = Fin 2, wstart = Fin 0, wend = Fin 2\<rparr> (\<lambda>f. [FNum 1, FNum 1]) U W W ! 1
       = transpose_sum sym 2 [FNum 1, FNum 1] 1"
  using au_atu_rows [of U W "\<lparr>wn = Fin 2, wstart = Fin 0, wend = Fin 2\<rparr>" 2 0 2
      "\<lambda>f. [FNum 1, FNum 1]" 1 sym]
  by simp

text \<open>
  C4. For a problem of size \<open>n > 0\<close> and \<open>P > 0\<close> CPUs, \<^verbatim>\<open>startWorkers\<close> creates \<open>P\<close>
  workers; worker \<open>k\<close> has the rows of the interval from \<open>k * chunk\<close> up to
  \<open>k * chunk + chunk\<close>, clipped to \<open>n\<close>, with \<open>chunk\<close> the ceiling of \<open>n / P\<close>. The row
  sets of two workers are disjoint; every row of an earlier worker is below every row of
  a later one; a worker that has rows starts where its predecessor ends; and together the
  row sets are exactly \<open>[0, n)\<close>.
\<close>

theorem startWorkers_partition:
  assumes "0 < n" "0 < P"
  shows "length (startWorkers P (Fin n)) = P
    \<and> (\<forall>k<P. wstart (startWorkers P (Fin n) ! k) = Fin (k * nat \<lceil>real n / real P\<rceil>)
            \<and> wend (startWorkers P (Fin n) ! k)
                = Fin (min (k * nat \<lceil>real n / real P\<rceil> + nat \<lceil>real n / real P\<rceil>) n)
            \<and> rows (startWorkers P (Fin n) ! k)
                = {k * nat \<lceil>real n / real P\<rceil>
                   ..< min (k * nat \<lceil>real n / real P\<rceil> + nat \<lceil>real n / real P\<rceil>) n})
    \<and> (\<forall>k<P. \<forall>l<P. k \<noteq> l \<longrightarrow>
          rows (startWorkers P (Fin n) ! k) \<inter> rows (startWorkers P (Fin n) ! l) = {})
    \<and> (\<forall>k<P. \<forall>l<P. k < l \<longrightarrow>
          (\<forall>x\<in>rows (startWorkers P (Fin n) ! k). \<forall>y\<in>rows (startWorkers P (Fin n) ! l). x < y))
    \<and> (\<forall>k. Suc k < P \<longrightarrow> rows (startWorkers P (Fin n) ! Suc k) \<noteq> {} \<longrightarrow>
          wend (startWorkers P (Fin n) ! k) = wstart (startWorkers P (Fin n) ! Suc k))
    \<and> (\<Union>k<P. rows (startWorkers P (Fin n) ! k)) = {0..<n}"
proof -
  have c: "(n + P - 1) div P = nat \<lceil>real n / real P\<rceil>"
    using ceil_div_ceiling [OF assms(2), of n] by simp
  show ?thesis
  proof (intro conjI allI impI ballI)
    show "length (startWorkers P (Fin n)) = P"
      by (rule startWorkers_length)
  next
    fix k assume "k < P"
    with assms(2)
    show "wstart (startWorkers P (Fin n) ! k) = Fin (k * nat \<lceil>real n / real P\<rceil>)"
      unfolding c [symmetric] by (simp add: startWorkers_nth)
  next
    fix k assume "k < P"
    with assms(2) show "wend (startWorkers P (Fin n) ! k)
        = Fin (min (k * nat \<lceil>real n / real P\<rceil> + nat \<lceil>real n / real P\<rceil>) n)"
      unfolding c [symmetric] by (simp add: startWorkers_nth)
  next
    fix k assume "k < P"
    with assms(2) show "rows (startWorkers P (Fin n) ! k)
        = {k * nat \<lceil>real n / real P\<rceil>
           ..< min (k * nat \<lceil>real n / real P\<rceil> + nat \<lceil>real n / real P\<rceil>) n}"
      unfolding c [symmetric] by (simp add: rows_startWorkers)
  next
    fix k l assume "k < P" "l < P" "k \<noteq> l"
    with assms(2)
    show "rows (startWorkers P (Fin n) ! k) \<inter> rows (startWorkers P (Fin n) ! l) = {}"
      by (rule rows_disjoint)
  next
    fix k l x y
    assume "k < l" "l < P" "x \<in> rows (startWorkers P (Fin n) ! k)"
      "y \<in> rows (startWorkers P (Fin n) ! l)"
    then show "x < y"
      by (intro rows_ascending [OF assms(2), of k l x n y])
  next
    fix k assume "Suc k < P" "rows (startWorkers P (Fin n) ! Suc k) \<noteq> {}"
    with assms(2)
    show "wend (startWorkers P (Fin n) ! k) = wstart (startWorkers P (Fin n) ! Suc k)"
      by (rule rows_adjacent)
  next
    show "(\<Union>k<P. rows (startWorkers P (Fin n) ! k)) = {0..<n}"
      using assms by (rule rows_union)
  qed
qed

theorem startWorkers_partition_witness:
  "(0::nat) < 5 \<and> (0::nat) < 4
   \<and> length (startWorkers 4 (Fin 5)) = 4
   \<and> rows (startWorkers 4 (Fin 5) ! 1) \<inter> rows (startWorkers 4 (Fin 5) ! 2) = {}
   \<and> (\<Union>k<4. rows (startWorkers 4 (Fin 5) ! k)) = {0..<5}"
proof -
  have 1: "(0::nat) < 5" and 2: "(0::nat) < 4" by simp_all
  note t = startWorkers_partition [OF 1 2]
  note len = t [THEN conjunct1]
  note dis = t [THEN conjunct2, THEN conjunct2, THEN conjunct1, rule_format, of 1 2]
  note un = t [THEN conjunct2, THEN conjunct2, THEN conjunct2, THEN conjunct2, THEN conjunct2]
  have "rows (startWorkers 4 (Fin 5) ! 1) \<inter> rows (startWorkers 4 (Fin 5) ! 2) = {}"
    by (rule dis) simp_all
  with 1 2 len un show ?thesis by (intro conjI)
qed

text \<open>
  C9. A worker whose \<^verbatim>\<open>data\<close> is still undefined throws on a compute message, \<open>Au\<close> or
  \<open>Atu\<close>, with the error that names it. The handler call ends there: it writes nothing to
  the store and posts no completion message, and so does the worker that receives the
  compute message first.
\<close>

theorem compute_before_Sab_throws:
  "onMessage ar wd False buf (Au f1 f2) = Threw ''Au received before Sab''
   \<and> onMessage ar wd False buf (Atu f1 f2) = Threw ''Atu received before Sab''
   \<and> workerThread ar wd False buf 0 (Au f1 f2 # ms) = Threw ''Au received before Sab''
   \<and> workerThread ar wd False buf 0 (Atu f1 f2 # ms) = Threw ''Atu received before Sab''"
  by simp

section \<open>Properties of the coordinator\<close>

text \<open>
  C3. On a host with at least one CPU, for a size \<open>n\<close> whose buffer allocates: the
  coordinator posts, after \<open>Sab\<close>, exactly the forty units of ten rounds, each round being
  \<open>atAu(u, v, w)\<close> then \<open>atAu(v, u, w)\<close>, and \<open>atAu(x, y, w)\<close> being the forward multiply of
  \<open>x\<close> into \<open>w\<close> then the transpose multiply of \<open>w\<close> into \<open>y\<close>, and then \<open>Exit\<close>. The
  workers together leave the store that the forty units give on whole vectors, each unit
  computed on the complete result of the one before; and in the concurrent run, whenever
  the coordinator is not waiting, and so at every moment at which it posts a unit, the
  store is what the units posted so far give on whole vectors. From the store that the
  forty units leave, the coordinator prints \<open>sqrt(vBv / vv)\<close> through \<^verbatim>\<open>toFixed(9)\<close>,
  with \<open>vBv\<close> the sum of \<open>u[i] * v[i]\<close> and \<open>vv\<close> the sum of \<open>v[i] * v[i]\<close> over \<open>i\<close> in
  \<open>[0, n)\<close>.
\<close>

theorem mainThread_schedule_and_result:
  assumes "0 < cpus" "byteLength (Fin n) \<le> min limit (2 ^ 53 - 1)"
    and "reachable ar (startWorkers cpus (Fin n)) schedule (views ar (Fin n)) s"
    and "\<not> awaiting s"
  shows "mainThread ar limit cpus (Fin n) =
           Printed (Sab # schedule @ [Exit])
             (toFixed ar
               (fsqrt ar
                 (fdiv ar
                   (dot ar n (dense_run ar n schedule (views ar (Fin n)) U)
                      (dense_run ar n schedule (views ar (Fin n)) V))
                   (dot ar n (dense_run ar n schedule (views ar (Fin n)) V)
                      (dense_run ar n schedule (views ar (Fin n)) V))))
               9)
         \<and> run_units ar (map (\<lambda>wd. (wd, True)) (startWorkers cpus (Fin n)))
               (views ar (Fin n)) [Sab] schedule
             = Resolved (map (\<lambda>wd. (wd, True)) (startWorkers cpus (Fin n)))
                 (dense_run ar n schedule (views ar (Fin n))) (Sab # schedule)
         \<and> store s = dense_run ar n (take (sent s) schedule) (views ar (Fin n))
         \<and> schedule = concat (replicate 10 [Au U W, Atu W V, Au V W, Atu W U])"
proof (intro conjI)
  show "mainThread ar limit cpus (Fin n) =
      Printed (Sab # schedule @ [Exit])
        (toFixed ar
          (fsqrt ar
            (fdiv ar
              (dot ar n (dense_run ar n schedule (views ar (Fin n)) U)
                 (dense_run ar n schedule (views ar (Fin n)) V))
              (dot ar n (dense_run ar n schedule (views ar (Fin n)) V)
                 (dense_run ar n schedule (views ar (Fin n)) V))))
          9)"
    using assms(1,2) by (rule mainThread_dense(2))
  show "run_units ar (map (\<lambda>wd. (wd, True)) (startWorkers cpus (Fin n)))
        (views ar (Fin n)) [Sab] schedule
      = Resolved (map (\<lambda>wd. (wd, True)) (startWorkers cpus (Fin n)))
          (dense_run ar n schedule (views ar (Fin n))) (Sab # schedule)"
    using assms(1,2) by (rule mainThread_dense(1))
  show "store s = dense_run ar n (take (sent s) schedule) (views ar (Fin n))"
    using assms(3) shares_startWorkers [OF assms(1)] schedule_proper _ assms(4)
    by (rule reachable_dense) (simp add: views_length)
  show "schedule = concat (replicate 10 [Au U W, Atu W V, Au V W, Atu W U])"
    by (simp add: schedule_def atAu_units_def)
qed

theorem mainThread_schedule_and_result_witness:
  "(0::nat) < 2 \<and> byteLength (Fin 3) \<le> min (2 ^ 31) (2 ^ 53 - 1)
   \<and> reachable sym (startWorkers 2 (Fin 3)) schedule (views sym (Fin 3)) (example_state 9)
   \<and> \<not> awaiting (example_state 9)
   \<and> mainThread sym (2 ^ 31) 2 (Fin 3) =
       Printed (Sab # schedule @ [Exit])
         (ToFixed
           (FSqrt
             (FDiv
               (dot sym 3 (dense_run sym 3 schedule (views sym (Fin 3)) U)
                  (dense_run sym 3 schedule (views sym (Fin 3)) V))
               (dot sym 3 (dense_run sym 3 schedule (views sym (Fin 3)) V)
                  (dense_run sym 3 schedule (views sym (Fin 3)) V))))
           9)
   \<and> sent (example_state 9) = 1
   \<and> store (example_state 9) = dense_run sym 3 [Au U W] (views sym (Fin 3))
   \<and> store (example_state 9) W ! 0 =
       FAdd (FAdd (FAdd (FNum 0) (FDiv (FNum 1) (FNum 1))) (FDiv (FNum 1) (FNum 2)))
         (FDiv (FNum 1) (FNum 4))"
proof -
  have 1: "(0::nat) < 2" by simp
  have 2: "byteLength (Fin 3) \<le> min (2 ^ 31) (2 ^ 53 - 1)"
    by (simp add: byteLength_def fl_exact)
  note t = mainThread_schedule_and_result [OF 1 2 example_reachable(1) example_9(1)]
  from t have m: "mainThread sym (2 ^ 31) 2 (Fin 3) =
       Printed (Sab # schedule @ [Exit])
         (ToFixed
           (FSqrt
             (FDiv
               (dot sym 3 (dense_run sym 3 schedule (views sym (Fin 3)) U)
                  (dense_run sym 3 schedule (views sym (Fin 3)) V))
               (dot sym 3 (dense_run sym 3 schedule (views sym (Fin 3)) V)
                  (dense_run sym 3 schedule (views sym (Fin 3)) V))))
           9)"
    by (simp add: sym_def)
  from t have st: "store (example_state 9) = dense_run sym 3 [Au U W] (views sym (Fin 3))"
    by (simp add: example_9(2) take_1_schedule [simplified])
  from 1 2 example_reachable(1) example_9 m st dense_first show ?thesis
    by simp
qed

text \<open>
  C8. The claim has a missing or non-numeric size stop the program at startup, before a
  worker is spawned. Such an argument reaches \<^verbatim>\<open>mainThread\<close> as NaN, and nothing checks
  it: on one CPU the program spawns a worker with NaN for \<open>n\<close>, \<open>start\<close> and \<open>end\<close>, posts
  all its messages and prints \<^verbatim>\<open>toFixed(9)\<close> of \<open>sqrt(0 / 0)\<close>.
\<close>

theorem missing_size_counterexample:
  "startWorkers 1 NaN = [\<lparr>wn = NaN, wstart = NaN, wend = NaN\<rparr>]
   \<and> mainThread sym (2 ^ 31) 1 NaN
       = Printed (Sab # schedule @ [Exit]) (ToFixed (FSqrt (FDiv (FNum 0) (FNum 0))) 9)"
  using mainThread_NaN [of 1 sym "2 ^ 31"] by (simp add: sym_def)

text \<open>
  C8, as amended. With a missing or non-numeric size, \<open>n\<close> is NaN and the program does
  not fail: on a host with at least one CPU it spawns one worker for each CPU, with NaN
  for \<open>n\<close>, \<open>start\<close> and \<open>end\<close>, runs its ten rounds over empty vectors, and prints
  \<^verbatim>\<open>toFixed(9)\<close> of \<open>sqrt(0 / 0)\<close>.
\<close>

theorem missing_size_runs:
  assumes "0 < cpus"
  shows "startWorkers cpus NaN = replicate cpus \<lparr>wn = NaN, wstart = NaN, wend = NaN\<rparr>
         \<and> mainThread ar limit cpus NaN =
             Printed (Sab # schedule @ [Exit])
               (toFixed ar (fsqrt ar (fdiv ar (dbl ar 0) (dbl ar 0))) 9)"
  using assms by (rule mainThread_NaN)

theorem missing_size_runs_witness:
  "(0::nat) < 2
   \<and> startWorkers 2 NaN = replicate 2 \<lparr>wn = NaN, wstart = NaN, wend = NaN\<rparr>
   \<and> mainThread sym (2 ^ 31) 2 NaN =
       Printed (Sab # schedule @ [Exit])
         (toFixed sym (fsqrt sym (fdiv sym (dbl sym 0) (dbl sym 0))) 9)"
  using missing_size_runs [of 2 sym "2 ^ 31"] by simp

section \<open>The barrier\<close>

text \<open>
  C5. In every state that a run reaches, and for all workers \<open>w\<close> and \<open>w'\<close>: what \<open>w\<close>
  has taken from its port and what waits there are together \<open>Sab\<close>, the units posted so
  far in their order, and \<open>Exit\<close> once the workers are stopped, so every unit is posted
  to every worker, the same to all; a worker at work computes the unit posted last; \<open>w\<close>
  has begun at most one unit more than \<open>w'\<close> has finished, so no worker begins unit
  \<open>k + 1\<close> before every worker has finished unit \<open>k\<close>; the coordinator has received from
  \<open>w\<close> one completion message for each unit posted, but for the last while it waits; and
  when it is not waiting, and so free to post the next unit, it has received one for
  every unit from every worker, and every worker has finished every unit.
\<close>

theorem total_barrier:
  assumes "reachable ar wds units buf0 s" "w < length wds" "w' < length wds"
  shows "taken s w @ inbox s w = Sab # take (sent s) units @ (if stopped s then [Exit] else [])
     \<and> started s w \<le> finished s w' + 1
     \<and> received s w \<le> sent s \<and> sent s \<le> received s w + 1
     \<and> (awaiting s \<or> (received s w = sent s \<and> finished s w = sent s))
     \<and> (busy s w = None \<or> (busy s w = Some (units ! (sent s - 1)) \<and> started s w = sent s))"
proof -
  note inv = reachable_inv [OF assms(1)]
  note g = invD(1) [OF inv] and 1 = invD(2) [OF inv assms(2)] and 2 = invD(2) [OF inv assms(3)]
    and 3 = invD(3) [OF inv assms(2)] and 4 = invD(4) [OF inv assms(2)]
  have l: "lis01 s w \<le> 1" "lis01 s w' \<le> 1" by (simp_all add: lis01_def)
  from 4 have "taken s w @ inbox s w
      = Sab # take (sent s) units @ (if stopped s then [Exit] else [])"
    by (simp add: ported_def posted_to_def)
  moreover from 1 2 l have "started s w \<le> finished s w' + 1"
    by (simp add: counts_def)
  moreover from 1 l have "received s w \<le> sent s \<and> sent s \<le> received s w + 1"
    by (simp add: counts_def)
  moreover have "awaiting s \<or> (received s w = sent s \<and> finished s w = sent s)"
  proof (cases "awaiting s")
    case False
    from idle [OF 1 g False] 1 show ?thesis by (simp add: counts_def)
  qed simp
  moreover have "busy s w = None \<or> (busy s w = Some (units ! (sent s - 1)) \<and> started s w = sent s)"
  proof (cases "busy s w")
    case (Some m)
    with 3 have "m = units ! (sent s - 1)" by (simp add: same_unit_def current_def)
    moreover from Some 1 l have "started s w = sent s"
      by (simp add: counts_def busy01_def)
    ultimately show ?thesis using Some by simp
  qed simp
  ultimately show ?thesis by blast
qed

theorem total_barrier_witness:
  "reachable sym (startWorkers 2 (Fin 3)) schedule (views sym (Fin 3)) (example_state 11)
   \<and> (0::nat) < length (startWorkers 2 (Fin 3)) \<and> (1::nat) < length (startWorkers 2 (Fin 3))
   \<and> taken (example_state 11) 0 @ inbox (example_state 11) 0
       = Sab # take (sent (example_state 11)) schedule
           @ (if stopped (example_state 11) then [Exit] else [])
   \<and> taken (example_state 11) 0 = [Sab, Au U W, Atu W V]
   \<and> started (example_state 11) 0 \<le> finished (example_state 11) 1 + 1
   \<and> started (example_state 11) 0 = 2 \<and> finished (example_state 11) 1 = 1
   \<and> received (example_state 11) 0 \<le> sent (example_state 11)
   \<and> sent (example_state 11) \<le> received (example_state 11) 0 + 1
   \<and> sent (example_state 11) = 2 \<and> received (example_state 11) 0 = 1
   \<and> awaiting (example_state 11)
   \<and> busy (example_state 11) 0 = Some (schedule ! (sent (example_state 11) - 1))
   \<and> busy (example_state 11) 0 = Some (Atu W V)
   \<and> started (example_state 11) 0 = sent (example_state 11)"
proof -
  have 1: "(0::nat) < length (startWorkers 2 (Fin 3))"
    and 2: "(1::nat) < length (startWorkers 2 (Fin 3))"
    by (simp_all add: startWorkers_length)
  note t = total_barrier [OF example_reachable(2) 1 2]
  from t example_reachable(2) 1 2 example_11 show ?thesis
    by (simp add: take_2_schedule schedule_1)
qed

end
